theory Spec2Isabelle
  imports Complex_Main
begin

section \<open>Windower\<close>

text \<open>
  The notebook runs on Python 2 (kernel \<^verbatim>\<open>python2\<close>), so \<^verbatim>\<open>window_size / 2\<close> on
  integers is floor division, which is \<open>div\<close> on \<open>int\<close>.

  \<^verbatim>\<open>
  def windows(data, window_size):
      start = 0
      while start < len(data):
          yield start, start + window_size
          start += (window_size / 2)
  \<close>

  The generator is modelled by the list of pairs it yields until it is exhausted.
  The loop need not end, so the list is an option: \<open>None\<close> is a generator that is
  never exhausted.
\<close>

partial_function (option) windows_loop :: "int \<Rightarrow> int \<Rightarrow> int \<Rightarrow> (int \<times> int) list option" where
  "windows_loop len_data window_size start =
     (if start < len_data
      then Option.bind (windows_loop len_data window_size (start + window_size div 2))
             (\<lambda>rest. Some ((start, start + window_size) # rest))
      else Some [])"

declare windows_loop.simps [code]

definition windows :: "'a list \<Rightarrow> int \<Rightarrow> (int \<times> int) list option" where
  "windows data window_size = windows_loop (int (length data)) window_size 0"

text \<open>
  A generator that is never exhausted still yields: \<open>windows_prefix k\<close> is what the
  first \<open>k\<close> resumptions of the generator yield (fewer than \<open>k\<close> pairs when it is
  exhausted before).
\<close>

fun windows_prefix_loop :: "nat \<Rightarrow> int \<Rightarrow> int \<Rightarrow> int \<Rightarrow> (int \<times> int) list" where
  "windows_prefix_loop 0 len_data window_size start = []"
| "windows_prefix_loop (Suc k) len_data window_size start =
     (if start < len_data
      then (start, start + window_size)
             # windows_prefix_loop k len_data window_size (start + window_size div 2)
      else [])"

definition windows_prefix :: "nat \<Rightarrow> 'a list \<Rightarrow> int \<Rightarrow> (int \<times> int) list" where
  "windows_prefix k data window_size = windows_prefix_loop k (int (length data)) window_size 0"

text \<open>
  Python's \<^verbatim>\<open>xs[start:end]\<close> with integer bounds: a negative bound counts from the
  end, and both bounds are clamped to \<open>0 .. len(xs)\<close>.
\<close>

definition slice_bound :: "int \<Rightarrow> int \<Rightarrow> nat" where
  "slice_bound n i = (let j = (if i < 0 then i + n else i) in nat (max 0 (min n j)))"

definition py_slice :: "'a list \<Rightarrow> int \<Rightarrow> int \<Rightarrow> 'a list" where
  "py_slice xs start end =
     (let n = int (length xs); s = slice_bound n start; e = slice_bound n end
      in take (e - s) (drop s xs))"

section \<open>Errors, arrays and the external collaborators\<close>

text \<open>
  The exceptions the code can raise. \<open>LoadError\<close> stands for whatever the audio decoder
  raises on a file it cannot read.
\<close>

datatype py_error = IndexError | ValueError | IOError | UnboundLocalError | LoadError

text \<open>
  A numpy array: its shape and its entries in row-major order. The entries are floats
  that the code only stores, moves and compares with the constants 0 and 1.
\<close>

record 'a ndarray =
  shape :: "nat list"
  data :: "'a list"

definition wf_array :: "'a ndarray \<Rightarrow> bool" where
  "wf_array a = (length (data a) = prod_list (shape a))"

text \<open>Row-major offset of a multi-index, and the multi-index of an offset.\<close>

fun ravel :: "nat list \<Rightarrow> nat list \<Rightarrow> nat" where
  "ravel (d # ds) (i # is) = i * prod_list ds + ravel ds is"
| "ravel _ _ = 0"

fun unravel :: "nat list \<Rightarrow> nat \<Rightarrow> nat list" where
  "unravel [] k = []"
| "unravel (d # ds) k = (k div prod_list ds) # unravel ds (k mod prod_list ds)"

definition item :: "'a ndarray \<Rightarrow> nat list \<Rightarrow> 'a" where
  "item a idx = data a ! ravel (shape a) idx"

text \<open>\<^verbatim>\<open>a.T\<close> reverses the axes.\<close>

definition array_T :: "'a ndarray \<Rightarrow> 'a ndarray" where
  "array_T a =
     \<lparr>shape = rev (shape a),
      data = map (\<lambda>k. data a ! ravel (shape a) (rev (unravel (rev (shape a)) k)))
               [0..<length (data a)]\<rparr>"

definition flatten :: "'a ndarray \<Rightarrow> 'a ndarray" where
  "flatten a = \<lparr>shape = [length (data a)], data = data a\<rparr>"

text \<open>\<^verbatim>\<open>a[:, np.newaxis]\<close> on a one-dimensional array.\<close>

definition newaxis :: "'a ndarray \<Rightarrow> 'a ndarray" where
  "newaxis a = \<lparr>shape = shape a @ [1], data = data a\<rparr>"

text \<open>
  \<^verbatim>\<open>np.asarray\<close> of a list of arrays stacks them along a new first axis. The empty list
  gives an empty one-dimensional array. For arrays of different shapes numpy builds
  an array of objects instead; the code never meets one, since all its windows have
  one size and the rows one shape. The model raises there.
\<close>

definition asarray :: "'a ndarray list \<Rightarrow> py_error + 'a ndarray" where
  "asarray as =
     (case as of
        [] \<Rightarrow> Inr \<lparr>shape = [0], data = []\<rparr>
      | a # rest \<Rightarrow>
          if list_all (\<lambda>b. shape b = shape a) rest
          then Inr \<lparr>shape = length as # shape a, data = concat (map data as)\<rparr>
          else Inl ValueError)"

definition reshape :: "'a ndarray \<Rightarrow> nat list \<Rightarrow> py_error + 'a ndarray" where
  "reshape a new_shape =
     (if prod_list new_shape = length (data a)
      then Inr \<lparr>shape = new_shape, data = data a\<rparr>
      else Inl ValueError)"

definition zeros :: "nat list \<Rightarrow> real ndarray" where
  "zeros s = \<lparr>shape = s, data = replicate (prod_list s) 0\<rparr>"

text \<open>
  \<^verbatim>\<open>np.concatenate((a, b), axis)\<close>: the shapes must agree off the axis; the result
  alternates the blocks of \<open>a\<close> and \<open>b\<close> under each index prefix.
\<close>

definition chunks :: "nat \<Rightarrow> nat \<Rightarrow> 'a list \<Rightarrow> 'a list list" where
  "chunks count len xs = map (\<lambda>i. take len (drop (i * len) xs)) [0..<count]"

definition concatenate :: "'a ndarray \<Rightarrow> 'a ndarray \<Rightarrow> nat \<Rightarrow> py_error + 'a ndarray" where
  "concatenate a b axis =
     (if length (shape a) = length (shape b) \<and> axis < length (shape a)
         \<and> take axis (shape a) = take axis (shape b)
         \<and> drop (Suc axis) (shape a) = drop (Suc axis) (shape b)
      then Inr \<lparr>shape = (shape a)[axis := shape a ! axis + shape b ! axis],
                data = concat (map2 (@)
                  (chunks (prod_list (take axis (shape a))) (prod_list (drop axis (shape a))) (data a))
                  (chunks (prod_list (take axis (shape b))) (prod_list (drop axis (shape b))) (data b)))\<rparr>
      else Inl ValueError)"

text \<open>
  The collaborators the code calls and does not define: the file system walk
  \<^verbatim>\<open>glob.glob(os.path.join(parent_dir, sub_dir, file_ext))\<close>, the decoder
  \<^verbatim>\<open>librosa.load\<close> (its first component), the three spectrogram kernels, and numpy's
  conversion of a label string to an integer in \<^verbatim>\<open>np.array(labels, dtype = np.int)\<close>.
  The decoder and the conversion can fail; the kernels are total functions from arrays
  to arrays, so an exception raised inside a kernel is outside the model.
\<close>

record env =
  glob :: "string \<Rightarrow> string \<Rightarrow> string \<Rightarrow> string list"
  load :: "string \<Rightarrow> py_error + real list"
  melspectrogram :: "real list \<Rightarrow> nat \<Rightarrow> real ndarray"
  logamplitude :: "real ndarray \<Rightarrow> real ndarray"
  delta :: "real ndarray \<Rightarrow> real ndarray"
  int_of_label :: "string \<Rightarrow> int option"

section \<open>Strings\<close>

text \<open>
  \<^verbatim>\<open>s.split(sep)\<close> for a non-empty separator: the pieces between the occurrences of
  \<open>sep\<close>, found from the left without overlap. \<open>cur\<close> is the piece being read.
\<close>

function split_loop :: "string \<Rightarrow> string \<Rightarrow> string \<Rightarrow> string list" where
  "split_loop sep cur s =
     (if s = [] then [cur]
      else if sep \<noteq> [] \<and> take (length sep) s = sep
      then cur # split_loop sep [] (drop (length sep) s)
      else split_loop sep (cur @ [hd s]) (tl s))"
  by pat_completeness auto
termination
  by (relation "measure (\<lambda>(sep, cur, s). length s)") auto

definition py_split :: "string \<Rightarrow> string \<Rightarrow> string list" where
  "py_split s sep = split_loop sep [] s"

text \<open>\<^verbatim>\<open>label = fn.split('fold')[1].split('-')[1]\<close>\<close>

definition label_of_filename :: "string \<Rightarrow> py_error + string" where
  "label_of_filename fn =
     (case py_split fn ''fold'' of
        _ # p # _ \<Rightarrow>
          (case py_split p ''-'' of
             _ # l # _ \<Rightarrow> Inr l
           | _ \<Rightarrow> Inl IndexError)
      | _ \<Rightarrow> Inl IndexError)"

text \<open>\<^verbatim>\<open>str(k)\<close> of an integer.\<close>

function str_nat :: "nat \<Rightarrow> string" where
  "str_nat n = (if n < 10 then [''0123456789'' ! n] else str_nat (n div 10) @ [''0123456789'' ! (n mod 10)])"
  by pat_completeness auto
termination
  by (relation "measure (\<lambda>n. n)") auto

definition str_int :: "int \<Rightarrow> string" where
  "str_int k = (if k < 0 then CHR ''-'' # str_nat (nat (- k)) else str_nat (nat k))"

text \<open>\<^verbatim>\<open>os.path.join(a, b)\<close> for a relative \<open>b\<close>.\<close>

definition path_join :: "string \<Rightarrow> string \<Rightarrow> string" where
  "path_join a b = (if a = [] \<or> last a = CHR ''/'' then a @ b else a @ ''/'' @ b)"

section \<open>Feature extraction\<close>

text \<open>
  One window of the loop body:
  \<^verbatim>\<open>
  melspec = librosa.feature.melspectrogram(signal, n_mels = bands)
  logspec = librosa.logamplitude(melspec)
  logspec = logspec.T.flatten()[:, np.newaxis].T
  \<close>
\<close>

definition frame_row :: "env \<Rightarrow> nat \<Rightarrow> real list \<Rightarrow> real ndarray" where
  "frame_row env bands signal =
     (let melspec = melspectrogram env signal bands;
          logspec = logamplitude env melspec
      in array_T (newaxis (flatten (array_T logspec))))"

text \<open>
  The loop over the windows of one clip: the rows appended to \<^verbatim>\<open>log_specgrams\<close>.
  \<^verbatim>\<open>
  for (start,end) in windows(sound_clip,window_size):
      if(len(sound_clip[start:end]) == window_size):
          signal = sound_clip[start:end]
          ...
          log_specgrams.append(logspec)
  \<close>
\<close>

definition clip_frames :: "env \<Rightarrow> nat \<Rightarrow> real list \<Rightarrow> int \<Rightarrow> real ndarray list option" where
  "clip_frames env bands sound_clip window_size =
     Option.bind (windows sound_clip window_size)
       (\<lambda>ws. Some (map (\<lambda>(start, end). frame_row env bands (py_slice sound_clip start end))
                     (filter (\<lambda>(start, end). int (length (py_slice sound_clip start end)) = window_size) ws)))"

text \<open>
  \<^verbatim>\<open>features[i, :, :, 0]\<close> and the assignment \<^verbatim>\<open>features[i, :, :, 1] = d\<close>. The
  assignment needs \<open>d\<close> of the shape of the slice (numpy would also accept a shape
  that broadcasts to it, which a delta kernel never returns).
\<close>

definition channel0 :: "real ndarray \<Rightarrow> nat \<Rightarrow> real ndarray" where
  "channel0 a i =
     (let B = shape a ! 1; F = shape a ! 2
      in \<lparr>shape = [B, F],
          data = map (\<lambda>k. data a ! ravel (shape a) [i, k div F, k mod F, 0]) [0..<B * F]\<rparr>)"

definition set_channel1 :: "real ndarray \<Rightarrow> nat \<Rightarrow> real ndarray \<Rightarrow> py_error + real ndarray" where
  "set_channel1 a i d =
     (let B = shape a ! 1; F = shape a ! 2
      in if shape d = [B, F] \<and> length (data d) = B * F
         then Inr (a\<lparr>data :=
                foldl (\<lambda>dat k. dat[ravel (shape a) [i, k div F, k mod F, 1] := data d ! k])
                  (data a) [0..<B * F]\<rparr>)
         else Inl ValueError)"

text \<open>
  \<^verbatim>\<open>
  for i in range(len(features)):
      features[i, :, :, 1] = librosa.feature.delta(features[i, :, :, 0])
  \<close>
\<close>

fun delta_loop :: "env \<Rightarrow> real ndarray \<Rightarrow> nat list \<Rightarrow> py_error + real ndarray" where
  "delta_loop env features [] = Inr features"
| "delta_loop env features (i # is) =
     (case set_channel1 features i (delta env (channel0 features i)) of
        Inl e \<Rightarrow> Inl e
      | Inr features' \<Rightarrow> delta_loop env features' is)"

text \<open>
  The tail shared by both extractors:
  \<^verbatim>\<open>
  log_specgrams = np.asarray(log_specgrams).reshape(len(log_specgrams),bands,frames,1)
  features = np.concatenate((log_specgrams, np.zeros(np.shape(log_specgrams))), axis = 3)
  for i in range(len(features)): ...
  \<close>
\<close>

definition build_features :: "env \<Rightarrow> real ndarray list \<Rightarrow> nat \<Rightarrow> nat \<Rightarrow> py_error + real ndarray" where
  "build_features env log_specgrams bands frames =
     (case asarray log_specgrams of
        Inl e \<Rightarrow> Inl e
      | Inr arr \<Rightarrow>
          (case reshape arr [length log_specgrams, bands, frames, 1] of
             Inl e \<Rightarrow> Inl e
           | Inr specs \<Rightarrow>
               (case concatenate specs (zeros (shape specs)) 3 of
                  Inl e \<Rightarrow> Inl e
                | Inr features \<Rightarrow> delta_loop env features [0..<hd (shape features)])))"

definition extract_feature_array :: "env \<Rightarrow> string \<Rightarrow> nat \<Rightarrow> nat \<Rightarrow> (py_error + real ndarray) option" where
  "extract_feature_array env filename bands frames =
     (let window_size = 512 * (int frames - 1)
      in case load env filename of
           Inl e \<Rightarrow> Some (Inl e)
         | Inr sound_clip \<Rightarrow>
             Option.bind (clip_frames env bands sound_clip window_size)
               (\<lambda>log_specgrams. Some (build_features env log_specgrams bands frames)))"

text \<open>
  The two nested loops of \<^verbatim>\<open>extract_features\<close> over the sub-directories and their
  files, threading the lists \<^verbatim>\<open>log_specgrams\<close> and \<^verbatim>\<open>labels\<close>. No statement of the
  source catches an exception, so the first one ends the walk.
\<close>

fun process_files :: "env \<Rightarrow> nat \<Rightarrow> int \<Rightarrow> string list \<Rightarrow> real ndarray list \<times> string list
    \<Rightarrow> (py_error + real ndarray list \<times> string list) option" where
  "process_files env bands window_size [] st = Some (Inr st)"
| "process_files env bands window_size (fn # fns) (log_specgrams, labels) =
     (case load env fn of
        Inl e \<Rightarrow> Some (Inl e)
      | Inr sound_clip \<Rightarrow>
          (case label_of_filename fn of
             Inl e \<Rightarrow> Some (Inl e)
           | Inr label \<Rightarrow>
               (case clip_frames env bands sound_clip window_size of
                  None \<Rightarrow> None
                | Some rows \<Rightarrow>
                    process_files env bands window_size fns
                      (log_specgrams @ rows, labels @ replicate (length rows) label))))"

fun process_dirs :: "env \<Rightarrow> nat \<Rightarrow> int \<Rightarrow> string \<Rightarrow> string \<Rightarrow> string list
    \<Rightarrow> real ndarray list \<times> string list
    \<Rightarrow> (py_error + real ndarray list \<times> string list) option" where
  "process_dirs env bands window_size parent_dir file_ext [] st = Some (Inr st)"
| "process_dirs env bands window_size parent_dir file_ext (sub_dir # sub_dirs) st =
     (case process_files env bands window_size (glob env parent_dir sub_dir file_ext) st of
        None \<Rightarrow> None
      | Some (Inl e) \<Rightarrow> Some (Inl e)
      | Some (Inr st') \<Rightarrow> process_dirs env bands window_size parent_dir file_ext sub_dirs st')"

text \<open>\<^verbatim>\<open>np.array(labels, dtype = np.int)\<close>\<close>

definition int_labels :: "env \<Rightarrow> string list \<Rightarrow> py_error + int list" where
  "int_labels env labels =
     (case those (map (int_of_label env) labels) of
        None \<Rightarrow> Inl ValueError
      | Some ls \<Rightarrow> Inr ls)"

definition extract_features :: "env \<Rightarrow> string \<Rightarrow> string list \<Rightarrow> string \<Rightarrow> nat \<Rightarrow> nat
    \<Rightarrow> (py_error + real ndarray \<times> int list) option" where
  "extract_features env parent_dir sub_dirs file_ext bands frames =
     (let window_size = 512 * (int frames - 1)
      in case process_dirs env bands window_size parent_dir file_ext sub_dirs ([], []) of
           None \<Rightarrow> None
         | Some (Inl e) \<Rightarrow> Some (Inl e)
         | Some (Inr (log_specgrams, labels)) \<Rightarrow>
             Some (case build_features env log_specgrams bands frames of
                     Inl e \<Rightarrow> Inl e
                   | Inr features \<Rightarrow>
                       (case int_labels env labels of
                          Inl e \<Rightarrow> Inl e
                        | Inr ls \<Rightarrow> Inr (features, ls))))"

section \<open>Label Encoder\<close>

text \<open>
  \<^verbatim>\<open>
  def one_hot_encode(labels):
      n_labels = len(labels)
      n_unique_labels = len(np.unique(labels))
      one_hot_encode = np.zeros((n_labels,n_unique_labels))
      one_hot_encode[np.arange(n_labels), labels] = 1
      return one_hot_encode
  \<close>
  The indexed assignment takes row \<open>i\<close> and column \<open>labels[i]\<close>. A column index
  \<open>c\<close> of an axis of size \<open>k\<close> is in range when \<open>-k \<le> c < k\<close>, a negative one counting
  from the end; numpy checks all of them before it writes.
\<close>

definition np_unique :: "int list \<Rightarrow> int list" where
  "np_unique xs = sort (remdups xs)"

definition index_in_range :: "nat \<Rightarrow> int \<Rightarrow> bool" where
  "index_in_range k c = (- int k \<le> c \<and> c < int k)"

definition norm_index :: "nat \<Rightarrow> int \<Rightarrow> nat" where
  "norm_index k c = nat (if c < 0 then c + int k else c)"

definition one_hot_encode :: "int list \<Rightarrow> py_error + real ndarray" where
  "one_hot_encode labels =
     (let n_labels = length labels;
          n_unique_labels = length (np_unique labels);
          one_hot = zeros [n_labels, n_unique_labels]
      in if list_all (index_in_range n_unique_labels) labels
         then Inr (one_hot\<lparr>data :=
                foldl (\<lambda>dat (i, c). dat[ravel (shape one_hot) [i, norm_index n_unique_labels c] := 1])
                  (data one_hot) (zip [0..<n_labels] labels)\<rparr>)
         else Inl IndexError)"

section \<open>Persisting and loading folds\<close>

text \<open>The directory of saved arrays: \<^verbatim>\<open>np.save\<close> writes a file, \<^verbatim>\<open>np.load\<close> reads it.\<close>

type_synonym store = "string \<rightharpoonup> real ndarray"

text \<open>
  The names both loops build: \<^verbatim>\<open>'fold' + str(k)\<close>,
  \<^verbatim>\<open>os.path.join(data_dir, fold_name + '_x.npy')\<close> and
  \<^verbatim>\<open>os.path.join(data_dir, fold_name + '_y.npy')\<close>.
\<close>

definition fold_name_of :: "int \<Rightarrow> string" where
  "fold_name_of k = ''fold'' @ str_int k"

definition feature_file_of :: "string \<Rightarrow> string \<Rightarrow> string" where
  "feature_file_of data_dir fold_name = path_join data_dir (fold_name @ ''_x.npy'')"

definition labels_file_of :: "string \<Rightarrow> string \<Rightarrow> string" where
  "labels_file_of data_dir fold_name = path_join data_dir (fold_name @ ''_y.npy'')"

definition np_load :: "store \<Rightarrow> string \<Rightarrow> py_error + real ndarray" where
  "np_load st file = (case st file of None \<Rightarrow> Inl IOError | Some a \<Rightarrow> Inr a)"

text \<open>
  \<^verbatim>\<open>
  def save_folds(data_dir):
      for k in range(1,11):
          fold_name = 'fold' + str(k)
          features, labels = extract_features(parent_dir, [fold_name])
          labels = one_hot_encode(labels)
          feature_file = os.path.join(data_dir, fold_name + '_x.npy')
          labels_file = os.path.join(data_dir, fold_name + '_y.npy')
          np.save(feature_file, features)
          np.save(labels_file, labels)
  \<close>
  \<^verbatim>\<open>parent_dir\<close> is a global of the notebook. The result is the store when the loop
  stops, and the exception that stopped it, if one did.
\<close>

fun save_folds_loop :: "env \<Rightarrow> string \<Rightarrow> string \<Rightarrow> int list \<Rightarrow> store
    \<Rightarrow> (store \<times> py_error option) option" where
  "save_folds_loop env parent_dir data_dir [] st = Some (st, None)"
| "save_folds_loop env parent_dir data_dir (k # ks) st =
     (let fold_name = fold_name_of k
      in case extract_features env parent_dir [fold_name] ''*.wav'' 60 41 of
           None \<Rightarrow> None
         | Some (Inl e) \<Rightarrow> Some (st, Some e)
         | Some (Inr (features, labels)) \<Rightarrow>
             (case one_hot_encode labels of
                Inl e \<Rightarrow> Some (st, Some e)
              | Inr labels' \<Rightarrow>
                  (let feature_file = feature_file_of data_dir fold_name;
                       labels_file = labels_file_of data_dir fold_name
                   in save_folds_loop env parent_dir data_dir ks
                        (st(feature_file \<mapsto> features, labels_file \<mapsto> labels')))))"

definition save_folds :: "env \<Rightarrow> string \<Rightarrow> string \<Rightarrow> store \<Rightarrow> (store \<times> py_error option) option" where
  "save_folds env parent_dir data_dir st = save_folds_loop env parent_dir data_dir [1..10] st"

text \<open>
  \<^verbatim>\<open>
  def load_folds(folds):
      subsequent_fold = False
      for k in range(len(folds)):
          fold_name = 'fold' + str(folds[k])
          feature_file = os.path.join(data_dir, fold_name + '_x.npy')
          labels_file = os.path.join(data_dir, fold_name + '_y.npy')
          loaded_features = np.load(feature_file)
          loaded_labels = np.load(labels_file)
          if subsequent_fold:
              features = np.concatenate((features, loaded_features))
              labels = np.concatenate((labels, loaded_labels))
          else:
              features = loaded_features
              labels = loaded_labels
              subsequent_fold = True
      return features, labels
  \<close>
  The accumulator is \<open>None\<close> while \<^verbatim>\<open>subsequent_fold\<close> is false: the local names
  \<^verbatim>\<open>features\<close> and \<^verbatim>\<open>labels\<close> are then unbound, and the \<^verbatim>\<open>return\<close> raises.
\<close>

fun load_folds_loop :: "string \<Rightarrow> store \<Rightarrow> int list \<Rightarrow> (real ndarray \<times> real ndarray) option
    \<Rightarrow> py_error + (real ndarray \<times> real ndarray) option" where
  "load_folds_loop data_dir st [] acc = Inr acc"
| "load_folds_loop data_dir st (fold_id # folds) acc =
     (let fold_name = fold_name_of fold_id;
          feature_file = feature_file_of data_dir fold_name;
          labels_file = labels_file_of data_dir fold_name
      in case np_load st feature_file of
           Inl e \<Rightarrow> Inl e
         | Inr loaded_features \<Rightarrow>
             (case np_load st labels_file of
                Inl e \<Rightarrow> Inl e
              | Inr loaded_labels \<Rightarrow>
                  (case acc of
                     None \<Rightarrow> load_folds_loop data_dir st folds (Some (loaded_features, loaded_labels))
                   | Some (features, labels) \<Rightarrow>
                       (case concatenate features loaded_features 0 of
                          Inl e \<Rightarrow> Inl e
                        | Inr features' \<Rightarrow>
                            (case concatenate labels loaded_labels 0 of
                               Inl e \<Rightarrow> Inl e
                             | Inr labels' \<Rightarrow>
                                 load_folds_loop data_dir st folds (Some (features', labels')))))))"

definition load_folds :: "string \<Rightarrow> store \<Rightarrow> int list \<Rightarrow> py_error + real ndarray \<times> real ndarray" where
  "load_folds data_dir st folds =
     (case load_folds_loop data_dir st folds None of
        Inl e \<Rightarrow> Inl e
      | Inr None \<Rightarrow> Inl UnboundLocalError
      | Inr (Some r) \<Rightarrow> Inr r)"

text \<open>The examples of an array: its blocks along the first axis.\<close>

definition rows :: "'a ndarray \<Rightarrow> 'a list list" where
  "rows a = chunks (hd (shape a)) (prod_list (tl (shape a))) (data a)"

section \<open>Training Orchestrator\<close>

text \<open>
  The fold rotation at the head of the trial loop:
  \<^verbatim>\<open>
  v = f + 2
  if v > 10: v = 1
  t = v + 1
  if t > 10: t = 1
  ...
  train_x, train_y = load_folds([f,f+1])
  valid_x, valid_y = load_folds([v])
  test_x, test_y = load_folds([t])
  \<close>
  The result is the three lists of folds handed to \<^verbatim>\<open>load_folds\<close>.
\<close>

definition trial_folds :: "int \<Rightarrow> int list \<times> int list \<times> int list" where
  "trial_folds f =
     (let v = f + 2;
          v = (if v > 10 then 1 else v);
          t = v + 1;
          t = (if t > 10 then 1 else t)
      in ([f, f + 1], [v], [t]))"

section \<open>Example collaborators\<close>

text \<open>
  Concrete collaborators on which the theorems below are run: a directory listing, a
  decoder, a mel kernel that numbers the entries of its \<open>bands \<times> frames\<close> result in
  row-major order (entry \<open>(b, f)\<close> is \<open>b * frames + f\<close>), identity log and delta
  kernels, and a label conversion that knows the labels 0 and 1.
\<close>

definition example_env :: "(string \<Rightarrow> string list) \<Rightarrow> (string \<Rightarrow> py_error + real list) \<Rightarrow> nat \<Rightarrow> env" where
  "example_env dir_files loader frames =
     \<lparr>glob = (\<lambda>parent_dir sub_dir file_ext. dir_files sub_dir),
      load = loader,
      melspectrogram = (\<lambda>signal bands. \<lparr>shape = [bands, frames], data = map real [0..<bands * frames]\<rparr>),
      logamplitude = (\<lambda>a. a),
      delta = (\<lambda>a. a),
      int_of_label = (\<lambda>s. if s = ''0'' then Some 0 else if s = ''1'' then Some 1 else None)\<rparr>"

text \<open>
  A directory of saved folds: fold 1 with one example, fold 2 with two, both with
  labels of width 2, and fold 3 with one example and labels of width 1.
\<close>

definition example_store :: store where
  "example_store =
     [''data/fold1_x.npy'' \<mapsto> \<lparr>shape = [1, 1, 1, 2], data = [1, 2]\<rparr>,
      ''data/fold1_y.npy'' \<mapsto> \<lparr>shape = [1, 2], data = [1, 0]\<rparr>,
      ''data/fold2_x.npy'' \<mapsto> \<lparr>shape = [2, 1, 1, 2], data = [3, 4, 5, 6]\<rparr>,
      ''data/fold2_y.npy'' \<mapsto> \<lparr>shape = [2, 2], data = [0, 1, 1, 0]\<rparr>,
      ''data/fold3_x.npy'' \<mapsto> \<lparr>shape = [1, 1, 1, 2], data = [7, 8]\<rparr>,
      ''data/fold3_y.npy'' \<mapsto> \<lparr>shape = [1, 1], data = [1]\<rparr>]"

text \<open>
  A corpus for \<^verbatim>\<open>save_folds\<close>: fold 1 holds a clip of class 0 and a clip of class 1,
  fold 2 holds a clip of class 0, the other folds are empty. Every clip has 20480
  samples, one window of the default \<open>frames = 41\<close>.
\<close>

definition example_corpus :: env where
  "example_corpus =
     example_env
       (\<lambda>sub_dir. if sub_dir = ''fold1'' then [''audio/fold1/101-0-0.wav'', ''audio/fold1/102-1-0.wav'']
                  else if sub_dir = ''fold2'' then [''audio/fold2/201-0-0.wav'']
                  else [])
       (\<lambda>fn. Inr (replicate 20480 0)) 41"

section \<open>The Windower: termination and closed form\<close>

lemma windows_loop_stuck:
  "windows_loop L W s = Some ws \<Longrightarrow> W div 2 \<le> 0 \<Longrightarrow> L \<le> s"
proof (induction rule: windows_loop.raw_induct[rotated 1, consumes 1])
  case (1 loop L W s ws)
  show ?case
  proof (rule ccontr)
    assume "\<not> L \<le> s"
    then have lt: "s < L" by simp
    with 1(2) obtain rest where "loop L W (s + W div 2) = Some rest"
      by (auto simp: bind_eq_Some_conv)
    from 1(1)[OF this 1(3)] have "L \<le> s + W div 2" .
    with 1(3) lt show False by simp
  qed
qed

lemma windows_loop_diverges:
  assumes "W \<le> 1" and "s < L"
  shows "windows_loop L W s = None"
proof (cases "windows_loop L W s")
  case (Some ws)
  from assms(1) have "W div 2 \<le> 0" by simp
  from windows_loop_stuck[OF Some this] assms(2) show ?thesis by simp
qed simp

lemma map_upt_Suc_shift: "map f [0..<Suc n] = f 0 # map (\<lambda>k. f (Suc k)) [0..<n]"
  by (simp add: upt_conv_Cons map_Suc_upt[symmetric] del: upt_Suc)

lemma windows_loop_closed:
  assumes h: "2 \<le> W"
  shows "windows_loop L W s =
    Some (map (\<lambda>k. (s + int k * (W div 2), s + int k * (W div 2) + W))
            [0..<nat ((L - s - 1) div (W div 2) + 1)])"
proof (induction "nat (L - s)" arbitrary: s rule: less_induct)
  case less
  let ?h = "W div 2"
  from h have hp: "1 \<le> ?h" by simp
  show ?case
  proof (cases "s < L")
    case False
    then have "(L - s - 1) div ?h < 0"
      using hp by (intro div_neg_pos_less0) auto
    then have "nat ((L - s - 1) div ?h + 1) = 0" by simp
    with False show ?thesis by (subst windows_loop.simps) simp
  next
    case True
    have dec: "nat (L - (s + ?h)) < nat (L - s)" using True hp by simp
    define a where "a = L - (s + ?h) - 1"
    have "(a + 1 * ?h) div ?h = 1 + a div ?h"
      using hp by (subst div_mult_self1) auto
    moreover have "a + 1 * ?h = L - s - 1" by (simp add: a_def)
    ultimately have "(L - s - 1) div ?h = a div ?h + 1" by (simp only: add.commute)
    then have eq: "(L - s - 1) div ?h = (L - (s + ?h) - 1) div ?h + 1" by (simp only: a_def)
    have "0 \<le> (L - s - 1) div ?h"
      using True hp by (simp add: pos_imp_zdiv_nonneg_iff)
    then have n: "nat ((L - s - 1) div ?h + 1) = Suc (nat ((L - (s + ?h) - 1) div ?h + 1))"
      unfolding eq by linarith
    show ?thesis
      apply (subst windows_loop.simps)
      apply (simp only: True if_True less.hyps[OF dec] n map_upt_Suc_shift)
      apply (simp add: algebra_simps)
      done
  qed
qed

lemma windows_closed:
  assumes "2 \<le> W"
  shows "windows xs W =
    Some (map (\<lambda>k. (int k * (W div 2), int k * (W div 2) + W))
            [0..<nat ((int (length xs) - 1) div (W div 2) + 1)])"
  unfolding windows_def using windows_loop_closed[OF assms, of "int (length xs)" 0] by simp

lemma windows_empty: "windows [] W = Some []"
  unfolding windows_def by (subst windows_loop.simps) simp

lemma windows_diverges: "W \<le> 1 \<Longrightarrow> xs \<noteq> [] \<Longrightarrow> windows xs W = None"
  unfolding windows_def by (rule windows_loop_diverges) auto

lemma windows_prefix_loop_stuck:
  "W div 2 \<le> 0 \<Longrightarrow> s < L \<Longrightarrow>
   windows_prefix_loop k L W s = map (\<lambda>i. (s + int i * (W div 2), s + int i * (W div 2) + W)) [0..<k]"
proof (induction k arbitrary: s)
  case 0
  then show ?case by simp
next
  case (Suc k)
  have "s + W div 2 < L" using Suc.prems by simp
  from Suc.IH[OF Suc.prems(1) this] Suc.prems(2) show ?case
    by (simp only: windows_prefix_loop.simps if_True map_upt_Suc_shift) (simp add: algebra_simps)
qed

lemma windows_prefix_loop_take:
  "windows_loop L W s = Some ws \<Longrightarrow> windows_prefix_loop k L W s = take k ws"
proof (induction k arbitrary: s ws)
  case 0
  then show ?case by simp
next
  case (Suc k)
  show ?case
  proof (cases "s < L")
    case True
    with Suc.prems obtain rest where r: "windows_loop L W (s + W div 2) = Some rest"
      and ws: "ws = (s, s + W) # rest"
      by (subst (asm) windows_loop.simps) (auto simp: bind_eq_Some_conv)
    from Suc.IH[OF r] True ws show ?thesis by simp
  next
    case False
    with Suc.prems have "ws = []" by (subst (asm) windows_loop.simps) simp
    with False show ?thesis by simp
  qed
qed

lemma mult_le_iff_le_div:
  assumes "0 < (h::int)"
  shows "(k * h \<le> x) = (k \<le> x div h)"
proof
  assume "k * h \<le> x"
  from zdiv_mono1[OF this assms] assms show "k \<le> x div h" by simp
next
  assume "k \<le> x div h"
  then have "k * h \<le> (x div h) * h" using assms by (simp add: mult_right_mono)
  also have "\<dots> \<le> x" using assms
    by (metis mult.commute pos_mod_sign add_increasing2 mult_div_mod_eq order_refl)
  finally show "k * h \<le> x" .
qed

lemma length_filter_less_upt: "length (filter (\<lambda>k. k < c) [0..<n]) = min c n"
  by (induction n) auto

lemma py_slice_length:
  "0 \<le> s \<Longrightarrow> s < int (length xs) \<Longrightarrow> 0 \<le> W \<Longrightarrow>
   int (length (py_slice xs s (s + W))) = min W (int (length xs) - s)"
  by (auto simp: py_slice_def slice_bound_def Let_def min_def max_def)

lemma windows_full_count:
  fixes xs :: "'a list"
  assumes W: "2 \<le> W"
  shows "int (length (filter (\<lambda>(s, e). W \<le> int (length (py_slice xs s e)))
           (map (\<lambda>k. (int k * (W div 2), int k * (W div 2) + W))
              [0..<nat ((int (length xs) - 1) div (W div 2) + 1)])))
         = (if W \<le> int (length xs) then (int (length xs) - W) div (W div 2) + 1 else 0)"
proof -
  let ?h = "W div 2" and ?L = "int (length xs)"
  let ?n = "nat ((?L - 1) div ?h + 1)"
  let ?c = "nat ((?L - W) div ?h + 1)"
  from W have hp: "0 < ?h" by simp
  have full: "(W \<le> int (length (py_slice xs (int k * ?h) (int k * ?h + W)))) = (k < ?c)"
    if "k \<in> set [0..<?n]" for k
  proof -
    from that have "int k \<le> (?L - 1) div ?h" by auto
    then have "int k * ?h \<le> ?L - 1" by (simp only: mult_le_iff_le_div[OF hp])
    then have lt: "int k * ?h < ?L" by simp
    have "0 \<le> int k * ?h" using hp by simp
    from py_slice_length[OF this lt, of W] W
    have "(W \<le> int (length (py_slice xs (int k * ?h) (int k * ?h + W)))) = (int k * ?h \<le> ?L - W)"
      by auto
    also have "\<dots> = (int k \<le> (?L - W) div ?h)" by (rule mult_le_iff_le_div[OF hp])
    also have "\<dots> = (k < ?c)" by auto
    finally show ?thesis .
  qed
  have "length (filter (\<lambda>(s, e). W \<le> int (length (py_slice xs s e)))
           (map (\<lambda>k. (int k * ?h, int k * ?h + W)) [0..<?n]))
        = length (filter (\<lambda>k. W \<le> int (length (py_slice xs (int k * ?h) (int k * ?h + W)))) [0..<?n])"
    by (simp add: filter_map o_def)
  also have "\<dots> = length (filter (\<lambda>k. k < ?c) [0..<?n])"
    by (rule arg_cong[where f = length], rule filter_cong) (simp_all only: full)
  also have "\<dots> = min ?c ?n" by (rule length_filter_less_upt)
  finally have len: "length (filter (\<lambda>(s, e). W \<le> int (length (py_slice xs s e)))
           (map (\<lambda>k. (int k * ?h, int k * ?h + W)) [0..<?n])) = min ?c ?n" .
  show ?thesis
  proof (cases "W \<le> ?L")
    case True
    then have nn: "0 \<le> (?L - W) div ?h" using hp by (simp add: pos_imp_zdiv_nonneg_iff)
    have "(?L - W) div ?h \<le> (?L - 1) div ?h"
      using W hp by (intro zdiv_mono1) auto
    then have "?c \<le> ?n" by simp
    then have m: "int (min ?c ?n) = (?L - W) div ?h + 1" using nn by simp
    show ?thesis by (simp only: len m True if_True)
  next
    case False
    then have "(?L - W) div ?h < 0" using hp by (intro div_neg_pos_less0) auto
    then have "?c = 0" by simp
    then have m: "int (min ?c ?n) = 0" by simp
    show ?thesis by (simp only: len m False if_False)
  qed
qed

lemma windows_short_none_full:
  fixes xs :: "'a list"
  assumes short: "int (length xs) < W"
  shows "\<exists>ws. windows xs W = Some ws
     \<and> (xs \<noteq> [] \<longrightarrow> ws \<noteq> [] \<and> hd ws = (0, W))
     \<and> (xs = [] \<longrightarrow> ws = [])
     \<and> filter (\<lambda>(s, e). int (length (py_slice xs s e)) = W) ws = []"
proof (cases "xs = []")
  case True
  then show ?thesis by (simp add: windows_empty)
next
  case False
  let ?h = "W div 2" and ?L = "int (length xs)"
  let ?n = "nat ((?L - 1) div ?h + 1)"
  let ?ws = "map (\<lambda>k. (int k * ?h, int k * ?h + W)) [0..<?n]"
  from False have Lpos: "1 \<le> ?L" by (cases xs) auto
  with short have W: "2 \<le> W" by simp
  then have hp: "0 < ?h" by simp
  have w: "windows xs W = Some ?ws" by (rule windows_closed[OF W])
  have "0 \<le> ?L - 1" using Lpos by linarith
  then have "0 \<le> (?L - 1) div ?h" using hp by (simp only: pos_imp_zdiv_nonneg_iff)
  then obtain m where n: "?n = Suc m" by (cases ?n) auto
  have ne: "?ws \<noteq> []" using n by simp
  have hd: "hd ?ws = (0, W)" unfolding n map_upt_Suc_shift by simp
  have none: "int (length (py_slice xs s e)) \<noteq> W" if "(s, e) \<in> set ?ws" for s e
  proof -
    from that obtain k where k: "k < ?n" and s: "s = int k * ?h" and e: "e = s + W" by auto
    from k have "int k \<le> (?L - 1) div ?h" by auto
    then have "int k * ?h \<le> ?L - 1" by (simp only: mult_le_iff_le_div[OF hp])
    then have lt: "s < ?L" using s by simp
    have s0: "0 \<le> s" using hp s by simp
    from py_slice_length[OF s0 lt, of W] W short e s0 show ?thesis by simp
  qed
  have "filter (\<lambda>(s, e). int (length (py_slice xs s e)) = W) ?ws = []"
    unfolding filter_empty_conv using none by blast
  with w ne hd False show ?thesis by (intro exI[of _ ?ws]) (simp only: simp_thms)
qed

lemma clip_frames_short:
  assumes "int (length sound_clip) < window_size"
  shows "clip_frames env bands sound_clip window_size = Some []"
proof -
  from windows_short_none_full[OF assms] obtain ws where
    "windows sound_clip window_size = Some ws"
    "filter (\<lambda>(s, e). int (length (py_slice sound_clip s e)) = window_size) ws = []"
    by blast
  then show ?thesis by (simp add: clip_frames_def)
qed

section \<open>Claims about the Windower\<close>

text \<open>
  Claim C3, amended. For every sample sequence of length \<open>L\<close> and every window size
  \<open>W \<ge> 2\<close>, with \<open>W div 2\<close> the integer half the code steps by: the generator ends,
  its windows are \<open>(k * (W div 2), k * (W div 2) + W)\<close> for \<open>k = 0, 1, ...\<close> in this order,
  one for every start below \<open>L\<close>, and the number of windows whose slice has length
  at least \<open>W\<close> is \<open>(L - W) div (W div 2) + 1\<close> when \<open>W \<le> L\<close> and \<open>0\<close> when \<open>L < W\<close>.
\<close>

theorem windows_starts_and_full_count:
  fixes xs :: "'a list"
  assumes "2 \<le> W"
  shows "\<exists>ws. windows xs W = Some ws
    \<and> ws = map (\<lambda>k. (int k * (W div 2), int k * (W div 2) + W)) [0..<length ws]
    \<and> int (length ws) = (int (length xs) - 1) div (W div 2) + 1
    \<and> list_all (\<lambda>(s, e). s < int (length xs)) ws
    \<and> int (length (filter (\<lambda>(s, e). W \<le> int (length (py_slice xs s e))) ws))
        = (if W \<le> int (length xs) then (int (length xs) - W) div (W div 2) + 1 else 0)"
proof -
  let ?h = "W div 2" and ?L = "int (length xs)"
  let ?n = "nat ((?L - 1) div ?h + 1)"
  let ?ws = "map (\<lambda>k. (int k * ?h, int k * ?h + W)) [0..<?n]"
  from assms have hp: "0 < ?h" by simp
  have w: "windows xs W = Some ?ws" by (rule windows_closed[OF assms])
  have len: "length ?ws = ?n" by simp
  have "- 1 \<le> (?L - 1) div ?h"
  proof (cases "xs = []")
    case True
    then show ?thesis using hp by (simp add: div_eq_minus1)
  next
    case False
    then have "0 \<le> (?L - 1) div ?h" using hp by (simp add: pos_imp_zdiv_nonneg_iff)
    then show ?thesis by simp
  qed
  then have n: "int ?n = (?L - 1) div ?h + 1" by simp
  have lt: "list_all (\<lambda>(s, e). s < ?L) ?ws"
  proof -
    have "int k * ?h < ?L" if "k < ?n" for k
    proof -
      from that have "int k \<le> (?L - 1) div ?h" by auto
      then have "int k * ?h \<le> ?L - 1" by (simp only: mult_le_iff_le_div[OF hp])
      then show ?thesis by simp
    qed
    then show ?thesis by (simp add: list_all_iff)
  qed
  show ?thesis
  proof (intro exI[of _ ?ws] conjI)
    show "windows xs W = Some ?ws" by (rule w)
    show "?ws = map (\<lambda>k. (int k * ?h, int k * ?h + W)) [0..<length ?ws]" by (simp only: len)
    show "int (length ?ws) = (?L - 1) div ?h + 1" using n by (simp only: len)
    show "list_all (\<lambda>(s, e). s < ?L) ?ws" by (rule lt)
    show "int (length (filter (\<lambda>(s, e). W \<le> int (length (py_slice xs s e))) ?ws))
        = (if W \<le> ?L then (?L - W) div ?h + 1 else 0)"
      by (rule windows_full_count[OF assms])
  qed
qed

text \<open>The theorem at a clip of nine samples and \<open>W = 4\<close>: five windows, three of them full.\<close>

theorem windows_starts_and_full_count_witness:
  "2 \<le> (4::int)
   \<and> (\<exists>ws. windows [1, 2, 3, 4, 5, 6, 7, 8, 9::real] 4 = Some ws
         \<and> map fst ws = [0, 2, 4, 6, 8]
         \<and> int (length (filter (\<lambda>(s, e). 4 \<le> int (length (py_slice [1, 2, 3, 4, 5, 6, 7, 8, 9::real] s e))) ws)) = 3)"
proof -
  have h: "2 \<le> (4::int)" by simp
  from windows_starts_and_full_count[OF h, of "[1, 2, 3, 4, 5, 6, 7, 8, 9::real]"]
  obtain ws where ws: "windows [1, 2, 3, 4, 5, 6, 7, 8, 9::real] 4 = Some ws"
    and cnt: "int (length (filter (\<lambda>(s, e). 4 \<le> int (length (py_slice [1, 2, 3, 4, 5, 6, 7, 8, 9::real] s e))) ws))
        = (if 4 \<le> int (length [1, 2, 3, 4, 5, 6, 7, 8, 9::real])
           then (int (length [1, 2, 3, 4, 5, 6, 7, 8, 9::real]) - 4) div (4 div 2) + 1 else 0)"
    by blast
  have "windows [1, 2, 3, 4, 5, 6, 7, 8, 9::real] 4 = Some [(0, 4), (2, 6), (4, 8), (6, 10), (8, 12)]"
    by code_simp
  with ws have "ws = [(0, 4), (2, 6), (4, 8), (6, 10), (8, 12)]" by simp
  then have "map fst ws = [0, 2, 4, 6, 8]" by simp
  moreover have "int (length (filter (\<lambda>(s, e). 4 \<le> int (length (py_slice [1, 2, 3, 4, 5, 6, 7, 8, 9::real] s e))) ws)) = 3"
    unfolding cnt by simp
  ultimately show ?thesis using ws by simp
qed

text \<open>
  Claim C3 as stated gives the count \<open>floor((L - W) / (W/2)) + 1\<close> for every \<open>L\<close>. At
  \<open>L = 1\<close>, \<open>W = 4\<close> the one window is short, so the count is \<open>0\<close>, and the formula
  gives \<open>-1\<close>.
\<close>

theorem windows_full_count_counterexample:
  "windows [0::real] 4 = Some [(0, 4)]
   \<and> int (length (filter (\<lambda>(s, e). 4 \<le> int (length (py_slice [0::real] s e))) [(0, 4)]))
       \<noteq> (int (length [0::real]) - 4) div (4 div 2) + 1"
  by code_simp

text \<open>
  Claim C9, amended. For every sample sequence of length \<open>L < W\<close> the generator ends.
  When \<open>0 < L\<close> it yields the pair \<open>(0, W)\<close> first; when \<open>L = 0\<close> it yields no pair. In
  both cases no yielded window has a slice of length \<open>W\<close>, so the consumer keeps no
  frame of the clip, and nothing is raised.
\<close>

theorem windows_short_clip:
  fixes xs :: "real list"
  assumes "int (length xs) < W"
  shows "\<exists>ws. windows xs W = Some ws
     \<and> (xs \<noteq> [] \<longrightarrow> ws \<noteq> [] \<and> hd ws = (0, W))
     \<and> (xs = [] \<longrightarrow> ws = [])
     \<and> filter (\<lambda>(s, e). int (length (py_slice xs s e)) = W) ws = []
     \<and> clip_frames env bands xs W = Some []"
  using windows_short_none_full[OF assms] clip_frames_short[OF assms, of env bands] by blast

text \<open>The theorem at a clip of three samples and \<open>W = 4\<close>.\<close>

theorem windows_short_clip_witness:
  "int (length [1, 2, 3::real]) < 4
   \<and> windows [1, 2, 3::real] 4 = Some [(0, 4), (2, 6)]
   \<and> filter (\<lambda>(s, e). int (length (py_slice [1, 2, 3::real] s e)) = 4) [(0, 4), (2, 6)] = []"
proof -
  have s: "int (length [1, 2, 3::real]) < 4" by simp
  have w: "windows [1, 2, 3::real] 4 = Some [(0, 4), (2, 6)]" by code_simp
  from windows_short_clip[OF s] w
  have "filter (\<lambda>(s, e). int (length (py_slice [1, 2, 3::real] s e)) = 4) [(0, 4), (2, 6)] = []"
    by (metis option.inject)
  with s w show ?thesis by simp
qed

text \<open>
  Claim C9 as stated includes \<open>L = 0\<close> among the lengths at which the pair \<open>(0, W)\<close> is
  yielded. The loop test \<^verbatim>\<open>start < len(data)\<close> fails at once there, and no pair is
  yielded.
\<close>

theorem windows_short_clip_counterexample:
  "windows ([]::real list) 4 = Some [] \<and> int (length ([]::real list)) < 4"
  by code_simp

text \<open>
  Claim C10. The generator is exhausted after finitely many pairs exactly when
  \<open>window_size \<ge> 2\<close> (the step \<open>window_size div 2\<close> is then at least 1) or the data is
  empty. For \<open>window_size \<le> 1\<close> and non-empty data it is never exhausted: every start
  stays below the length, and it yields \<open>k\<close> pairs for every \<open>k\<close>.
\<close>

theorem windows_terminates_iff:
  "((\<exists>ws. windows xs W = Some ws) \<longleftrightarrow> (2 \<le> W \<or> xs = []))
   \<and> (W \<le> 1 \<and> xs \<noteq> [] \<longrightarrow>
        windows xs W = None
        \<and> (\<forall>k. length (windows_prefix k xs W) = k
               \<and> list_all (\<lambda>(s, e). s < int (length xs)) (windows_prefix k xs W)))"
proof (intro conjI impI allI)
  show "(\<exists>ws. windows xs W = Some ws) \<longleftrightarrow> (2 \<le> W \<or> xs = [])"
  proof (cases "2 \<le> W \<or> xs = []")
    case True
    then show ?thesis using windows_closed[of W xs] windows_empty[of W] by auto
  next
    case False
    then have "windows xs W = None" by (intro windows_diverges) auto
    with False show ?thesis by simp
  qed
next
  assume a: "W \<le> 1 \<and> xs \<noteq> []"
  then show "windows xs W = None" by (intro windows_diverges) auto
  fix k
  from a have h: "W div 2 \<le> 0" and L: "0 < int (length xs)" by auto
  have p: "windows_prefix k xs W = map (\<lambda>i. (0 + int i * (W div 2), 0 + int i * (W div 2) + W)) [0..<k]"
    unfolding windows_prefix_def by (rule windows_prefix_loop_stuck[OF h L])
  show "length (windows_prefix k xs W) = k" unfolding p by simp
  have "int i * (W div 2) < int (length xs)" for i
    using h L by (smt (verit) mult_nonneg_nonpos of_nat_0_le_iff)
  then show "list_all (\<lambda>(s, e). s < int (length xs)) (windows_prefix k xs W)"
    unfolding p by (simp add: list_all_iff)
qed

text \<open>The theorem at a one-sample clip: \<open>W = 1\<close> never ends, \<open>W = 2\<close> yields one pair.\<close>

theorem windows_terminates_iff_witness:
  "windows [0::real] 1 = None \<and> length (windows_prefix 3 [0::real] 1) = 3
   \<and> windows [0::real] 2 = Some [(0, 2)]"
proof -
  from windows_terminates_iff[of "[0::real]" 1]
  have "windows [0::real] 1 = None" and "length (windows_prefix 3 [0::real] 1) = 3" by simp_all
  moreover have "windows [0::real] 2 = Some [(0, 2)]" by code_simp
  ultimately show ?thesis by simp
qed

section \<open>The Label Encoder\<close>

lemma foldl_update_nth:
  "m < length d \<Longrightarrow>
   foldl (\<lambda>d p. d[g p := v]) d ps ! m = (if m \<in> g ` set ps then v else d ! m)"
proof (induction ps arbitrary: d)
  case Nil
  then show ?case by simp
next
  case (Cons p ps)
  from Cons.prems have "m < length (d[g p := v])" by simp
  from Cons.IH[OF this] Cons.prems show ?case by (simp add: nth_list_update)
qed

lemma foldl_update_length: "length (foldl (\<lambda>d p. d[g p := v]) d ps) = length d"
  by (induction ps arbitrary: d) simp_all

lemma length_np_unique: "length (np_unique xs) = card (set xs)"
  by (simp add: np_unique_def length_remdups_card_conv)

lemma np_unique_range:
  assumes "set xs = {0..<int k}"
  shows "np_unique xs = [0..int k - 1]"
proof -
  have "sorted (np_unique xs)" "distinct (np_unique xs)" "set (np_unique xs) = {0..int k - 1}"
    using assms by (simp_all add: np_unique_def atLeastLessThan_def atLeastAtMost_def set_eq_iff)
  moreover have "sorted [0..int k - 1]" "distinct [0..int k - 1]" "set [0..int k - 1] = {0..int k - 1}"
    by auto
  ultimately show ?thesis by (metis sorted_distinct_set_unique)
qed

lemma nonneg_labels_range:
  assumes "list_all (index_in_range (card (set xs))) xs" and "list_all (\<lambda>c. 0 \<le> c) xs"
  shows "set xs = {0..<int (card (set xs))}"
proof -
  have "set xs \<subseteq> {0..<int (card (set xs))}"
    using assms by (auto simp: list_all_iff index_in_range_def)
  moreover have "card {0..<int (card (set xs))} = card (set xs)" by simp
  ultimately show ?thesis by (metis card_subset_eq finite_atLeastLessThan_int)
qed

lemma one_hot_entry:
  assumes r: "list_all (index_in_range k) labels" and i: "i < length labels" and j: "j < k"
  shows "foldl (\<lambda>dat (i, c). dat[i * k + norm_index k c := (1::real)])
           (replicate (length labels * k) 0) (zip [0..<length labels] labels) ! (i * k + j)
         = (if j = norm_index k (labels ! i) then 1 else 0)"
proof -
  let ?g = "\<lambda>(i, c). i * k + norm_index k c"
  let ?ps = "zip [0..<length labels] labels"
  have eq: "(\<lambda>dat (i, c). dat[i * k + norm_index k c := (1::real)]) = (\<lambda>dat p. dat[?g p := 1])"
    by (auto simp: fun_eq_iff)
  have lt: "norm_index k c < k" if "c \<in> set labels" for c
    using r that by (auto simp: list_all_iff index_in_range_def norm_index_def)
  have bound: "i * k + j < length labels * k"
  proof -
    have "i * k + j < i * k + k" using j by simp
    also have "\<dots> = Suc i * k" by simp
    also have "\<dots> \<le> length labels * k" using i by (intro mult_le_mono1) simp
    finally show ?thesis .
  qed
  have mem: "(i * k + j \<in> ?g ` set ?ps) = (j = norm_index k (labels ! i))"
  proof
    assume "i * k + j \<in> ?g ` set ?ps"
    then obtain i' c where p: "(i', c) \<in> set ?ps" and e: "i * k + j = i' * k + norm_index k c"
      by auto
    from p have i': "i' < length labels" and c: "c = labels ! i'"
      by (auto simp: set_zip)
    from c i' have "norm_index k c < k" by (intro lt) simp
    then have "(i' * k + norm_index k c) div k = i'" by (cases "k = 0") simp_all
    moreover have "(i * k + j) div k = i" using j by (cases "k = 0") simp_all
    ultimately have "i = i'" using e by simp
    with e c show "j = norm_index k (labels ! i)" by simp
  next
    assume "j = norm_index k (labels ! i)"
    moreover have "(i, labels ! i) \<in> set ?ps" using i by (auto simp: set_zip intro!: exI[of _ i])
    ultimately show "i * k + j \<in> ?g ` set ?ps" by force
  qed
  show ?thesis
    unfolding eq using mem bound by (subst foldl_update_nth) simp_all
qed

lemma one_hot_encode_ok:
  assumes r: "list_all (index_in_range (card (set labels))) labels"
  shows "\<exists>m. one_hot_encode labels = Inr m
     \<and> shape m = [length labels, card (set labels)]
     \<and> length (data m) = length labels * card (set labels)
     \<and> (\<forall>i j. i < length labels \<and> j < card (set labels) \<longrightarrow>
           item m [i, j] = (if j = norm_index (card (set labels)) (labels ! i) then 1 else 0))"
proof -
  let ?k = "card (set labels)" and ?n = "length labels"
  let ?m = "\<lparr>shape = [?n, ?k],
            data = foldl (\<lambda>dat (i, c). dat[i * ?k + norm_index ?k c := (1::real)])
                     (replicate (?n * ?k) 0) (zip [0..<?n] labels)\<rparr>"
  have enc: "one_hot_encode labels = Inr ?m"
    using r by (simp add: one_hot_encode_def Let_def length_np_unique zeros_def)
  have len: "length (data ?m) = ?n * ?k"
  proof -
    have "(\<lambda>dat (i, c). dat[i * ?k + norm_index ?k c := (1::real)])
        = (\<lambda>dat p. dat[(\<lambda>(i, c). i * ?k + norm_index ?k c) p := 1])"
      by (auto simp: fun_eq_iff)
    then show ?thesis by (simp add: foldl_update_length)
  qed
  have ent: "item ?m [i, j] = (if j = norm_index ?k (labels ! i) then 1 else 0)"
    if "i < ?n" "j < ?k" for i j
    using one_hot_entry[OF r that] by (simp add: item_def)
  show ?thesis
    by (intro exI[of _ ?m] conjI allI impI) (use enc len ent in \<open>simp_all only: ndarray.simps\<close>)
qed

lemma one_hot_encode_error:
  "\<not> list_all (index_in_range (card (set labels))) labels \<Longrightarrow> one_hot_encode labels = Inl IndexError"
  by (simp add: one_hot_encode_def Let_def length_np_unique)

text \<open>
  Claim C1, amended. Let \<open>k\<close> be the number of distinct values of the label sequence.
  If some label \<open>v\<close> is outside \<open>-k \<le> v < k\<close>, \<^verbatim>\<open>one_hot_encode\<close> raises
  \<^verbatim>\<open>IndexError\<close>. Otherwise it returns a matrix with one row per label and \<open>k\<close>
  columns, in which every row has exactly one entry equal to 1 and the rest equal to 0,
  and the column of the 1 is the raw label value itself (a negative value \<open>v\<close> counts
  from the end: column \<open>v + k\<close>). When it returns and no label is negative, the distinct
  values are exactly \<open>0, ..., k - 1\<close>, so that the column is then also the label's ordinal
  position among the distinct values in ascending order.
\<close>

theorem one_hot_encode_raw_columns:
  "if list_all (index_in_range (card (set labels))) labels
   then \<exists>m. one_hot_encode labels = Inr m
      \<and> shape m = [length labels, card (set labels)]
      \<and> length (data m) = length labels * card (set labels)
      \<and> (\<forall>i j. i < length labels \<and> j < card (set labels) \<longrightarrow>
            norm_index (card (set labels)) (labels ! i) < card (set labels)
            \<and> item m [i, j] = (if j = norm_index (card (set labels)) (labels ! i) then 1 else 0))
      \<and> (list_all (\<lambda>c. 0 \<le> c) labels \<longrightarrow>
            set labels = {0..<int (card (set labels))}
            \<and> (\<forall>i. i < length labels \<longrightarrow>
                  norm_index (card (set labels)) (labels ! i) = nat (labels ! i)
                  \<and> np_unique labels ! nat (labels ! i) = labels ! i))
   else one_hot_encode labels = Inl IndexError"
proof (cases "list_all (index_in_range (card (set labels))) labels")
  case False
  then show ?thesis by (simp add: one_hot_encode_error)
next
  case True
  let ?k = "card (set labels)"
  from one_hot_encode_ok[OF True] obtain m where m: "one_hot_encode labels = Inr m"
    "shape m = [length labels, ?k]" "length (data m) = length labels * ?k"
    "\<forall>i j. i < length labels \<and> j < ?k \<longrightarrow>
       item m [i, j] = (if j = norm_index ?k (labels ! i) then 1 else 0)"
    by blast
  have col: "norm_index ?k (labels ! i) < ?k" if "i < length labels" for i
  proof -
    from True that have "index_in_range ?k (labels ! i)" by (simp add: list_all_iff)
    then show ?thesis by (auto simp: index_in_range_def norm_index_def)
  qed
  have ord: "set labels = {0..<int ?k}
      \<and> (\<forall>i. i < length labels \<longrightarrow>
            norm_index ?k (labels ! i) = nat (labels ! i) \<and> np_unique labels ! nat (labels ! i) = labels ! i)"
    if nn: "list_all (\<lambda>c. 0 \<le> c) labels"
  proof (intro conjI allI impI)
    show rng: "set labels = {0..<int ?k}" by (rule nonneg_labels_range[OF True nn])
    fix i assume i: "i < length labels"
    then have mem: "labels ! i \<in> set labels" by simp
    with nn have ge: "0 \<le> labels ! i" by (simp add: list_all_iff)
    then show "norm_index ?k (labels ! i) = nat (labels ! i)" by (simp add: norm_index_def)
    from mem rng have lt: "labels ! i < int ?k" by auto
    have "np_unique labels ! nat (labels ! i) = [0..int ?k - 1] ! nat (labels ! i)"
      by (simp only: np_unique_range[OF rng])
    also have "\<dots> = 0 + int (nat (labels ! i))" using ge lt by (intro nth_upto) simp
    finally show "np_unique labels ! nat (labels ! i) = labels ! i" using ge by simp
  qed
  have "\<exists>m. one_hot_encode labels = Inr m
      \<and> shape m = [length labels, ?k]
      \<and> length (data m) = length labels * ?k
      \<and> (\<forall>i j. i < length labels \<and> j < ?k \<longrightarrow>
            norm_index ?k (labels ! i) < ?k
            \<and> item m [i, j] = (if j = norm_index ?k (labels ! i) then 1 else 0))
      \<and> (list_all (\<lambda>c. 0 \<le> c) labels \<longrightarrow>
            set labels = {0..<int ?k}
            \<and> (\<forall>i. i < length labels \<longrightarrow>
                  norm_index ?k (labels ! i) = nat (labels ! i)
                  \<and> np_unique labels ! nat (labels ! i) = labels ! i))"
    using m col ord by (intro exI[of _ m]) blast
  with True show ?thesis by (simp only: if_True)
qed

text \<open>The theorem at the labels \<open>1, 0, 1\<close>: two columns, the 1 in column 1, 0, 1.\<close>

theorem one_hot_encode_raw_columns_witness:
  "list_all (index_in_range (card (set [1, 0, 1::int]))) [1, 0, 1]
   \<and> list_all (\<lambda>c. 0 \<le> c) [1, 0, 1::int]
   \<and> (\<exists>m. one_hot_encode [1, 0, 1] = Inr m \<and> shape m = [3, 2]
         \<and> item m [0, 0] = 0 \<and> item m [0, 1] = 1 \<and> item m [1, 0] = 1 \<and> item m [1, 1] = 0)
   \<and> np_unique [1, 0, 1] ! nat 1 = 1"
proof -
  have k: "card (set [1, 0, 1::int]) = 2" by code_simp
  have r: "list_all (index_in_range (card (set [1, 0, 1::int]))) [1, 0, 1]"
    unfolding k by (simp add: index_in_range_def)
  have nn: "list_all (\<lambda>c. 0 \<le> c) [1, 0, 1::int]" by simp
  from one_hot_encode_raw_columns[of "[1, 0, 1]"] r
  obtain m where m: "one_hot_encode [1, 0, 1] = Inr m" "shape m = [3, 2]"
    and ent: "\<forall>i j. i < 3 \<and> j < 2 \<longrightarrow> item m [i, j] = (if j = norm_index 2 ([1, 0, 1] ! i) then 1 else 0)"
    and ord: "\<forall>i. i < 3 \<longrightarrow> np_unique [1, 0, 1] ! nat ([1, 0, 1] ! i) = [1, 0, 1] ! i"
    unfolding k using nn by auto
  from ent have "item m [0, 0] = 0" "item m [0, 1] = 1" "item m [1, 0] = 1" "item m [1, 1] = 0"
    by (simp_all add: norm_index_def)
  moreover from ord have "np_unique [1, 0, 1] ! nat 1 = 1" by force
  ultimately show ?thesis using r nn m by blast
qed

text \<open>
  Claim C1 as stated promises a matrix for every label sequence, with the column given
  by the ordinal position and not by the raw value. The labels \<open>0, 2\<close> have two distinct
  values, so the matrix has two columns and the raw index 2 is out of range: the call
  raises. The labels \<open>-1, 0\<close> give a matrix, in which \<open>-1\<close>, the first of the distinct
  values, has its 1 in the last column.
\<close>

theorem one_hot_encode_counterexample:
  "one_hot_encode [0, 2] = Inl IndexError
   \<and> one_hot_encode [- 1, 0] = Inr \<lparr>shape = [2, 2], data = [0, 1, 1, 0]\<rparr>
   \<and> np_unique [- 1, 0] = [- 1, 0]"
  by code_simp

section \<open>The fold rotation\<close>

text \<open>
  Claim C4. For every trial index \<open>f\<close> with \<open>1 \<le> f \<le> 9\<close> (the largest fold id is 10), the
  trial trains on the folds \<open>f\<close> and \<open>f + 1\<close>, validates on fold \<open>f + 2\<close>, replaced by 1
  when it exceeds 10, and tests on the fold after that, with the same replacement. All
  four fold ids lie in \<open>1 .. 10\<close>, and they are pairwise distinct: no fold has two roles.
\<close>

theorem trial_folds_rotation:
  assumes "1 \<le> f" and "f \<le> 9"
  shows "trial_folds f =
      ([f, f + 1],
       [if f + 2 > 10 then 1 else f + 2],
       [if (if f + 2 > 10 then 1 else f + 2) + 1 > 10 then 1 else (if f + 2 > 10 then 1 else f + 2) + 1])
    \<and> (case trial_folds f of (train, valid, test) \<Rightarrow>
          list_all (\<lambda>k. 1 \<le> k \<and> k \<le> 10) (train @ valid @ test)
          \<and> distinct (train @ valid @ test))"
  using assms by (auto simp: trial_folds_def Let_def)

text \<open>The theorem at \<open>f = 9\<close>: train on 9 and 10, validate on 1, test on 2.\<close>

theorem trial_folds_rotation_witness:
  "(1::int) \<le> 9 \<and> (9::int) \<le> 9 \<and> trial_folds 9 = ([9, 10], [1], [2])
   \<and> distinct ([9, 10] @ [1] @ [2::int])"
  using trial_folds_rotation[of 9] by simp

section \<open>Clips, files and exceptions\<close>

lemma build_features_empty:
  "build_features env [] bands frames = Inr \<lparr>shape = [0, bands, frames, 2], data = []\<rparr>"
  by (simp add: build_features_def asarray_def reshape_def concatenate_def zeros_def chunks_def)

lemma process_files_append:
  "process_files env bands W (xs @ ys) st =
     (case process_files env bands W xs st of
        None \<Rightarrow> None
      | Some (Inl e) \<Rightarrow> Some (Inl e)
      | Some (Inr st') \<Rightarrow> process_files env bands W ys st')"
proof (induction xs arbitrary: st)
  case Nil
  then show ?case by simp
next
  case (Cons x xs)
  obtain specs labels where st: "st = (specs, labels)" by (cases st)
  show ?case unfolding st
    by (simp add: Cons.IH split: sum.splits option.splits)
qed

lemma label_of_filename_error: "label_of_filename fn = Inl e \<Longrightarrow> e = IndexError"
  by (auto simp: label_of_filename_def split: list.splits)




text \<open>
  Claim C5, amended. During corpus extraction a failure to process one file ends the
  whole call: when the files before it were processed without error, and the decoder
  raises on it, or its name lacks the markers (which raises \<^verbatim>\<open>IndexError\<close>),
  \<^verbatim>\<open>extract_features\<close> raises that exception. No later file is processed and no
  features are returned.
\<close>

theorem file_failure_aborts_extraction:
  assumes "glob env parent_dir sub_dir file_ext = before @ bad # rest"
    and "process_files env bands (512 * (int frames - 1)) before ([], []) = Some (Inr st)"
    and "load env bad = Inl e \<or> (\<exists>clip. load env bad = Inr clip \<and> label_of_filename bad = Inl e)"
  shows "extract_features env parent_dir (sub_dir # sub_dirs) file_ext bands frames = Some (Inl e)
    \<and> (label_of_filename bad = Inl e \<longrightarrow> e = IndexError)"
proof -
  obtain specs labels where st: "st = (specs, labels)" by (cases st)
  from assms(3) have "process_files env bands (512 * (int frames - 1)) (bad # rest) (specs, labels) = Some (Inl e)"
    by auto
  with assms(2) have "process_files env bands (512 * (int frames - 1)) (before @ bad # rest) ([], []) = Some (Inl e)"
    by (simp add: process_files_append st)
  then have "extract_features env parent_dir (sub_dir # sub_dirs) file_ext bands frames = Some (Inl e)"
    by (simp add: extract_features_def Let_def assms(1))
  then show ?thesis using label_of_filename_error by blast
qed

text \<open>The theorem at a directory whose first file name has no \<^verbatim>\<open>-\<close>.\<close>

theorem file_failure_aborts_extraction_witness:
  "label_of_filename ''fold1/7061.wav'' = Inl IndexError
   \<and> extract_features
     (example_env (\<lambda>d. [''fold1/7061.wav'', ''fold1/7061-1-0-0.wav'']) (\<lambda>fn. Inr (replicate 512 0)) 2)
     ''audio'' [''fold1''] ''*.wav'' 2 2 = Some (Inl IndexError)"
proof -
  let ?env = "example_env (\<lambda>d. [''fold1/7061.wav'', ''fold1/7061-1-0-0.wav'']) (\<lambda>fn. Inr (replicate 512 0)) 2"
  have g: "glob ?env ''audio'' ''fold1'' ''*.wav'' = [] @ ''fold1/7061.wav'' # [''fold1/7061-1-0-0.wav'']"
    by (simp add: example_env_def)
  have p: "process_files ?env 2 (512 * (int 2 - 1)) [] ([], []) = Some (Inr ([], []))" by simp
  have lab: "label_of_filename ''fold1/7061.wav'' = Inl IndexError" by code_simp
  have l: "load ?env ''fold1/7061.wav'' = Inl IndexError
      \<or> (\<exists>clip. load ?env ''fold1/7061.wav'' = Inr clip \<and> label_of_filename ''fold1/7061.wav'' = Inl IndexError)"
    using lab by (simp add: example_env_def)
  from file_failure_aborts_extraction[OF g p l, of "[]"] lab show ?thesis by simp
qed

text \<open>
  Claim C5 as stated has the bad file skipped and the rest of the fold extracted. With a
  first file whose name lacks the marker, and with a first file that cannot be decoded,
  the call raises, although the second file alone gives one labelled example.
\<close>

theorem file_failure_counterexample:
  "extract_features
     (example_env (\<lambda>d. [''fold1/7061.wav'', ''fold1/7061-1-0-0.wav'']) (\<lambda>fn. Inr (replicate 512 0)) 2)
     ''audio'' [''fold1''] ''*.wav'' 2 2 = Some (Inl IndexError)
   \<and> extract_features
     (example_env (\<lambda>d. [''fold1/7061-0-0-0.wav'', ''fold1/7061-1-0-0.wav''])
        (\<lambda>fn. if fn = ''fold1/7061-0-0-0.wav'' then Inl LoadError else Inr (replicate 512 0)) 2)
     ''audio'' [''fold1''] ''*.wav'' 2 2 = Some (Inl LoadError)
   \<and> map_option (map_sum id snd) (extract_features
     (example_env (\<lambda>d. [''fold1/7061-1-0-0.wav'']) (\<lambda>fn. Inr (replicate 512 0)) 2)
     ''audio'' [''fold1''] ''*.wav'' 2 2) = Some (Inr [1])"
  by code_simp

section \<open>Loading folds\<close>

lemma concatenate_axis0:
  assumes "shape a = na # t" and "shape b = nb # t" and "wf_array a" and "wf_array b"
  shows "concatenate a b 0 = Inr \<lparr>shape = (na + nb) # t, data = data a @ data b\<rparr>"
  using assms by (simp add: concatenate_def chunks_def wf_array_def)

lemma concatenate_axis0_error:
  assumes "shape a = na # ta" and "shape b = nb # tb" and "ta \<noteq> tb"
  shows "concatenate a b 0 = Inl ValueError"
  using assms by (auto simp: concatenate_def)

lemma chunks_append:
  assumes "length xs = n * r"
  shows "chunks (n + m) r (xs @ ys) = chunks n r xs @ chunks m r ys"
proof -
  have left: "take r (drop (i * r) (xs @ ys)) = take r (drop (i * r) xs)" if "i < n" for i
  proof -
    from that have "Suc i * r \<le> n * r" by (intro mult_le_mono1) simp
    then have "i * r + r \<le> length xs" using assms by simp
    then show ?thesis by simp
  qed
  have right: "take r (drop ((n + i) * r) (xs @ ys)) = take r (drop (i * r) ys)" for i
    using assms by (simp add: add_mult_distrib)
  have "chunks (n + m) r (xs @ ys)
      = map (\<lambda>i. take r (drop (i * r) (xs @ ys))) [0..<n]
        @ map (\<lambda>i. take r (drop (i * r) (xs @ ys))) [n..<n + m]"
    unfolding chunks_def by (metis map_append upt_add_eq_append zero_le)
  also have "map (\<lambda>i. take r (drop (i * r) (xs @ ys))) [0..<n] = chunks n r xs"
    unfolding chunks_def using left by simp
  also have "map (\<lambda>i. take r (drop (i * r) (xs @ ys))) [n..<n + m]
      = map (\<lambda>i. take r (drop ((n + i) * r) (xs @ ys))) [0..<m]"
    by (simp add: map_add_upt[symmetric] o_def add.commute)
  also have "\<dots> = chunks m r ys" unfolding chunks_def using right by simp
  finally show ?thesis .
qed

lemma rows_append:
  assumes "length xs = n * prod_list t"
  shows "rows \<lparr>shape = (n + m) # t, data = xs @ ys\<rparr>
       = rows \<lparr>shape = n # t, data = xs\<rparr> @ rows \<lparr>shape = m # t, data = ys\<rparr>"
  using chunks_append[OF assms] by (simp add: rows_def)

lemma length_rows: "length (rows a) = hd (shape a)"
  by (simp add: rows_def chunks_def)

lemma zip_concat:
  "length xss = length yss \<Longrightarrow> list_all2 (\<lambda>xs ys. length xs = length ys) xss yss \<Longrightarrow>
   zip (concat xss) (concat yss) = concat (map2 zip xss yss)"
proof (induction xss yss rule: list_induct2)
  case Nil
  then show ?case by simp
next
  case (Cons xs xss ys yss)
  then show ?case by simp
qed

lemma rows_concat:
  assumes "\<forall>k \<in> set ks. shape (A k) = n k # t \<and> wf_array (A k)"
  shows "rows \<lparr>shape = sum_list (map n ks) # t, data = concat (map (\<lambda>k. data (A k)) ks)\<rparr>
       = concat (map (\<lambda>k. rows (A k)) ks)"
  using assms
proof (induction ks)
  case Nil
  then show ?case by (simp add: rows_def chunks_def)
next
  case (Cons k ks)
  from Cons.prems have len: "length (data (A k)) = n k * prod_list t"
    and sh: "shape (A k) = n k # t"
    by (simp_all add: wf_array_def)
  have "rows \<lparr>shape = (n k + sum_list (map n ks)) # t,
              data = data (A k) @ concat (map (\<lambda>k. data (A k)) ks)\<rparr>
      = rows \<lparr>shape = n k # t, data = data (A k)\<rparr>
        @ rows \<lparr>shape = sum_list (map n ks) # t, data = concat (map (\<lambda>k. data (A k)) ks)\<rparr>"
    by (rule rows_append[OF len])
  also have "rows \<lparr>shape = n k # t, data = data (A k)\<rparr> = rows (A k)"
    by (simp add: rows_def sh)
  also have "rows \<lparr>shape = sum_list (map n ks) # t, data = concat (map (\<lambda>k. data (A k)) ks)\<rparr>
      = concat (map (\<lambda>k. rows (A k)) ks)"
    using Cons by simp
  finally show ?case by simp
qed

lemma load_folds_loop_acc:
  assumes "\<forall>k \<in> set folds.
             st (feature_file_of data_dir (fold_name_of k)) = Some (F k)
           \<and> st (labels_file_of data_dir (fold_name_of k)) = Some (L k)"
    and "\<forall>k \<in> set folds. shape (F k) = n k # tfeat \<and> wf_array (F k)
                          \<and> shape (L k) = m k # tlab \<and> wf_array (L k)"
    and "shape f0 = n0 # tfeat" and "wf_array f0" and "shape l0 = m0 # tlab" and "wf_array l0"
  shows "load_folds_loop data_dir st folds (Some (f0, l0)) =
     Inr (Some (\<lparr>shape = (n0 + sum_list (map n folds)) # tfeat,
                  data = data f0 @ concat (map (\<lambda>k. data (F k)) folds)\<rparr>,
                \<lparr>shape = (m0 + sum_list (map m folds)) # tlab,
                  data = data l0 @ concat (map (\<lambda>k. data (L k)) folds)\<rparr>))"
  using assms
proof (induction folds arbitrary: f0 l0 n0 m0)
  case Nil
  then show ?case by simp
next
  case (Cons k folds)
  let ?f1 = "\<lparr>shape = (n0 + n k) # tfeat, data = data f0 @ data (F k)\<rparr>"
  let ?l1 = "\<lparr>shape = (m0 + m k) # tlab, data = data l0 @ data (L k)\<rparr>"
  from Cons.prems have k: "shape (F k) = n k # tfeat" "wf_array (F k)" "shape (L k) = m k # tlab" "wf_array (L k)"
    by simp_all
  have cf: "concatenate f0 (F k) 0 = Inr ?f1"
    by (rule concatenate_axis0[OF Cons.prems(3) k(1) Cons.prems(4) k(2)])
  have cl: "concatenate l0 (L k) 0 = Inr ?l1"
    by (rule concatenate_axis0[OF Cons.prems(5) k(3) Cons.prems(6) k(4)])
  have wf1: "wf_array ?f1" "wf_array ?l1"
    using Cons.prems(3-6) k by (simp_all add: wf_array_def add_mult_distrib)
  have rest: "load_folds_loop data_dir st folds (Some (?f1, ?l1)) =
     Inr (Some (\<lparr>shape = ((n0 + n k) + sum_list (map n folds)) # tfeat,
                  data = data ?f1 @ concat (map (\<lambda>k. data (F k)) folds)\<rparr>,
                \<lparr>shape = ((m0 + m k) + sum_list (map m folds)) # tlab,
                  data = data ?l1 @ concat (map (\<lambda>k. data (L k)) folds)\<rparr>))"
    using Cons.prems(1,2) wf1 by (intro Cons.IH) simp_all
  from Cons.prems(1) have files:
    "st (feature_file_of data_dir (fold_name_of k)) = Some (F k)"
    "st (labels_file_of data_dir (fold_name_of k)) = Some (L k)"
    by simp_all
  show ?case
    by (simp add: Let_def np_load_def files cf cl rest add.assoc del: append_assoc)
qed

text \<open>
  Claim C8, amended. For every non-empty ordered list of fold identifiers whose saved
  features and labels exist, are well-formed arrays, and agree off the example axis (one
  per-example feature shape, one label width), \<^verbatim>\<open>load_folds\<close> returns the
  concatenation of the per-fold arrays along the example axis in the order of the list.
  The number of rows is the sum of the per-fold numbers of rows, and when every fold has
  as many label rows as feature rows, the pairs (example, label) of the result are the
  pairs of the folds, fold after fold, each at its position.
\<close>

theorem load_folds_concatenates:
  assumes "folds \<noteq> []"
    and "\<forall>k \<in> set folds.
             st (feature_file_of data_dir (fold_name_of k)) = Some (F k)
           \<and> st (labels_file_of data_dir (fold_name_of k)) = Some (L k)"
    and "\<forall>k \<in> set folds. shape (F k) = n k # tfeat \<and> wf_array (F k)
                          \<and> shape (L k) = m k # tlab \<and> wf_array (L k)"
  shows "\<exists>features labels. load_folds data_dir st folds = Inr (features, labels)
      \<and> features = \<lparr>shape = sum_list (map n folds) # tfeat,
                      data = concat (map (\<lambda>k. data (F k)) folds)\<rparr>
      \<and> labels = \<lparr>shape = sum_list (map m folds) # tlab,
                    data = concat (map (\<lambda>k. data (L k)) folds)\<rparr>
      \<and> rows features = concat (map (\<lambda>k. rows (F k)) folds)
      \<and> rows labels = concat (map (\<lambda>k. rows (L k)) folds)
      \<and> length (rows features) = sum_list (map (\<lambda>k. length (rows (F k))) folds)
      \<and> ((\<forall>k \<in> set folds. n k = m k) \<longrightarrow>
           zip (rows features) (rows labels)
             = concat (map (\<lambda>k. zip (rows (F k)) (rows (L k))) folds))"
proof -
  let ?features = "\<lparr>shape = sum_list (map n folds) # tfeat,
                      data = concat (map (\<lambda>k. data (F k)) folds)\<rparr>"
  let ?labels = "\<lparr>shape = sum_list (map m folds) # tlab,
                    data = concat (map (\<lambda>k. data (L k)) folds)\<rparr>"
  from assms(1) obtain k rest where folds: "folds = k # rest" by (cases folds) auto
  from assms(2,3) folds have k:
    "st (feature_file_of data_dir (fold_name_of k)) = Some (F k)"
    "st (labels_file_of data_dir (fold_name_of k)) = Some (L k)"
    "shape (F k) = n k # tfeat" "wf_array (F k)" "shape (L k) = m k # tlab" "wf_array (L k)"
    by simp_all
  have rest: "load_folds_loop data_dir st rest (Some (F k, L k)) =
     Inr (Some (\<lparr>shape = (n k + sum_list (map n rest)) # tfeat,
                  data = data (F k) @ concat (map (\<lambda>k. data (F k)) rest)\<rparr>,
                \<lparr>shape = (m k + sum_list (map m rest)) # tlab,
                  data = data (L k) @ concat (map (\<lambda>k. data (L k)) rest)\<rparr>))"
    using assms(2,3) k(3-6) unfolding folds by (intro load_folds_loop_acc) simp_all
  have res: "load_folds data_dir st folds = Inr (?features, ?labels)"
    unfolding folds by (simp add: load_folds_def Let_def np_load_def k(1,2) rest)
  have rf: "rows ?features = concat (map (\<lambda>k. rows (F k)) folds)"
    using assms(3) by (intro rows_concat) simp
  have rl: "rows ?labels = concat (map (\<lambda>k. rows (L k)) folds)"
    using assms(3) by (intro rows_concat) simp
  have cnt: "length (rows ?features) = sum_list (map (\<lambda>k. length (rows (F k))) folds)"
    unfolding rf by (simp add: length_concat o_def)
  have pair: "zip (rows ?features) (rows ?labels)
             = concat (map (\<lambda>k. zip (rows (F k)) (rows (L k))) folds)"
    if eq: "\<forall>k \<in> set folds. n k = m k"
  proof -
    have "list_all2 (\<lambda>xs ys. length xs = length ys)
            (map (\<lambda>k. rows (F k)) folds) (map (\<lambda>k. rows (L k)) folds)"
      using assms(3) eq by (simp add: list_all2_conv_all_nth length_rows)
    then have "zip (concat (map (\<lambda>k. rows (F k)) folds)) (concat (map (\<lambda>k. rows (L k)) folds))
        = concat (map2 zip (map (\<lambda>k. rows (F k)) folds) (map (\<lambda>k. rows (L k)) folds))"
      by (intro zip_concat) simp_all
    also have "map2 zip (map (\<lambda>k. rows (F k)) folds) (map (\<lambda>k. rows (L k)) folds)
        = map (\<lambda>k. zip (rows (F k)) (rows (L k))) folds"
      by (simp add: zip_map_map zip_same_conv_map)
    finally show ?thesis unfolding rf rl .
  qed
  from res rf rl cnt pair show ?thesis by blast
qed

text \<open>The theorem at the folds 1 and 2 of the example directory.\<close>

theorem load_folds_concatenates_witness:
  "load_folds ''data'' example_store [1, 2]
     = Inr (\<lparr>shape = [3, 1, 1, 2], data = [1, 2, 3, 4, 5, 6]\<rparr>,
            \<lparr>shape = [3, 2], data = [1, 0, 0, 1, 1, 0]\<rparr>)
   \<and> zip (rows \<lparr>shape = [3, 1, 1, 2], data = [1, 2, 3, 4, 5, 6::real]\<rparr>)
         (rows \<lparr>shape = [3, 2], data = [1, 0, 0, 1, 1, 0::real]\<rparr>)
     = [([1, 2], [1, 0]), ([3, 4], [0, 1]), ([5, 6], [1, 0])]"
proof -
  let ?F = "\<lambda>k::int. if k = 1 then \<lparr>shape = [1, 1, 1, 2], data = [1, 2::real]\<rparr>
                     else \<lparr>shape = [2, 1, 1, 2], data = [3, 4, 5, 6]\<rparr>"
  let ?L = "\<lambda>k::int. if k = 1 then \<lparr>shape = [1, 2], data = [1, 0::real]\<rparr>
                     else \<lparr>shape = [2, 2], data = [0, 1, 1, 0]\<rparr>"
  let ?n = "\<lambda>k::int. if k = 1 then 1 else 2::nat"
  have names: "feature_file_of ''data'' (fold_name_of 1) = ''data/fold1_x.npy''"
    "labels_file_of ''data'' (fold_name_of 1) = ''data/fold1_y.npy''"
    "feature_file_of ''data'' (fold_name_of 2) = ''data/fold2_x.npy''"
    "labels_file_of ''data'' (fold_name_of 2) = ''data/fold2_y.npy''"
    by code_simp+
  have ne: "[1, 2::int] \<noteq> []" by simp
  have files: "\<forall>k \<in> set [1, 2::int].
             example_store (feature_file_of ''data'' (fold_name_of k)) = Some (?F k)
           \<and> example_store (labels_file_of ''data'' (fold_name_of k)) = Some (?L k)"
    by (simp add: names example_store_def)
  have shapes: "\<forall>k \<in> set [1, 2::int]. shape (?F k) = ?n k # [1, 1, 2] \<and> wf_array (?F k)
                          \<and> shape (?L k) = ?n k # [2] \<and> wf_array (?L k)"
    by (simp add: wf_array_def)
  from load_folds_concatenates[OF ne files shapes]
  have "load_folds ''data'' example_store [1, 2]
     = Inr (\<lparr>shape = [3, 1, 1, 2], data = [1, 2, 3, 4, 5, 6]\<rparr>,
            \<lparr>shape = [3, 2], data = [1, 0, 0, 1, 1, 0]\<rparr>)"
    by auto
  moreover have "zip (rows \<lparr>shape = [3, 1, 1, 2], data = [1, 2, 3, 4, 5, 6::real]\<rparr>)
         (rows \<lparr>shape = [3, 2], data = [1, 0, 0, 1, 1, 0::real]\<rparr>)
     = [([1, 2], [1, 0]), ([3, 4], [0, 1]), ([5, 6], [1, 0])]"
    by code_simp
  ultimately show ?thesis by simp
qed

text \<open>
  Claim C8 as stated covers every list of existing folds. On the empty list the names
  \<^verbatim>\<open>features\<close> and \<^verbatim>\<open>labels\<close> are never bound and the \<^verbatim>\<open>return\<close> raises; on
  two folds whose label matrices have different widths \<^verbatim>\<open>np.concatenate\<close> raises.
\<close>

theorem load_folds_counterexample:
  "load_folds ''data'' example_store [] = Inl UnboundLocalError
   \<and> load_folds ''data'' example_store [1, 3] = Inl ValueError
   \<and> example_store ''data/fold1_y.npy'' = Some \<lparr>shape = [1, 2], data = [1, 0]\<rparr>
   \<and> example_store ''data/fold3_y.npy'' = Some \<lparr>shape = [1, 1], data = [1]\<rparr>"
  by code_simp

section \<open>The feature pipeline\<close>

lemma array_T_2d:
  assumes "shape a = [B, F]" and "length (data a) = B * F"
  shows "array_T a = \<lparr>shape = [F, B], data = map (\<lambda>k. data a ! ((k mod B) * F + k div B)) [0..<B * F]\<rparr>"
  using assms by (simp add: array_T_def)

lemma array_T_row:
  assumes "shape a = [N, 1]" and "length (data a) = N"
  shows "array_T a = \<lparr>shape = [1, N], data = data a\<rparr>"
proof -
  have "map (\<lambda>k. data a ! (k mod N + k div N)) [0..<N] = map (\<lambda>k. data a ! k) [0..<N]"
    by (rule map_cong) simp_all
  also have "\<dots> = data a" using map_nth[of "data a"] assms(2) by simp
  finally show ?thesis using assms by (simp add: array_T_def)
qed

lemma frame_row_eq:
  assumes "shape (logamplitude env (melspectrogram env signal bands)) = [B, F]"
    and "length (data (logamplitude env (melspectrogram env signal bands))) = B * F"
  shows "frame_row env bands signal =
     \<lparr>shape = [1, B * F],
      data = map (\<lambda>k. data (logamplitude env (melspectrogram env signal bands)) ! ((k mod B) * F + k div B))
               [0..<B * F]\<rparr>"
proof -
  let ?logspec = "logamplitude env (melspectrogram env signal bands)"
  let ?d = "map (\<lambda>k. data ?logspec ! ((k mod B) * F + k div B)) [0..<B * F]"
  have t: "array_T ?logspec = \<lparr>shape = [F, B], data = ?d\<rparr>"
    by (rule array_T_2d[OF assms])
  have "array_T (newaxis (flatten \<lparr>shape = [F, B], data = ?d\<rparr>)) = \<lparr>shape = [1, B * F], data = ?d\<rparr>"
    using array_T_row[of "newaxis (flatten \<lparr>shape = [F, B], data = ?d\<rparr>)" "B * F"]
    by (simp add: newaxis_def flatten_def)
  then show ?thesis by (simp add: frame_row_def Let_def t)
qed

lemma length_concat_uniform:
  "\<forall>x \<in> set xss. length x = r \<Longrightarrow> length (concat xss) = length xss * r"
  by (induction xss) simp_all

lemma concat_uniform_nth:
  "\<forall>x \<in> set xss. length x = r \<Longrightarrow> i < length xss \<Longrightarrow> q < r \<Longrightarrow>
   concat xss ! (i * r + q) = xss ! i ! q"
proof (induction xss arbitrary: i)
  case Nil
  then show ?case by simp
next
  case (Cons x xss)
  show ?case
  proof (cases i)
    case 0
    with Cons.prems show ?thesis by (simp add: nth_append)
  next
    case (Suc i')
    with Cons.prems have "concat xss ! (i' * r + q) = xss ! i' ! q"
      by (intro Cons.IH) simp_all
    with Cons.prems Suc show ?thesis by (simp add: nth_append)
  qed
qed

lemma asarray_rows:
  assumes "specs \<noteq> []" and "\<forall>r \<in> set specs. shape r = [1, N]"
  shows "asarray specs = Inr \<lparr>shape = [length specs, 1, N], data = concat (map data specs)\<rparr>"
  using assms by (cases specs) (auto simp: asarray_def list_all_iff)

lemma chunks_one: "length xs = c \<Longrightarrow> chunks c 1 xs = map (\<lambda>i. [xs ! i]) [0..<c]"
  unfolding chunks_def
  by (rule map_cong) (simp_all add: take_Suc_conv_app_nth)

lemma pairs_length: "length (concat (map (\<lambda>i. [f i, g i]) [0..<c])) = 2 * c"
  by (induction c) simp_all

lemma pairs_nth_even: "j < c \<Longrightarrow> concat (map (\<lambda>i. [f i, g i]) [0..<c]) ! (2 * j) = f j"
proof (induction c)
  case 0
  then show ?case by simp
next
  case (Suc c)
  show ?case
  proof (cases "j < c")
    case True
    with Suc.IH show ?thesis by (simp add: nth_append pairs_length)
  next
    case False
    with Suc.prems have "j = c" by simp
    then show ?thesis by (simp add: nth_append pairs_length)
  qed
qed

lemma concatenate_zeros:
  assumes "length d = n * (B * F)"
  shows "concatenate \<lparr>shape = [n, B, F, 1], data = d\<rparr> (zeros [n, B, F, 1]) 3
       = Inr \<lparr>shape = [n, B, F, 2], data = concat (map (\<lambda>i. [d ! i, 0]) [0..<n * (B * F)])\<rparr>"
proof -
  let ?c = "n * (B * F)"
  have a: "chunks ?c (Suc 0) d = map (\<lambda>i. [d ! i]) [0..<?c]"
    using chunks_one[OF assms] by simp
  have "chunks ?c 1 (replicate ?c (0::real)) = map (\<lambda>i. [replicate ?c (0::real) ! i]) [0..<?c]"
    by (rule chunks_one) simp
  also have "\<dots> = map (\<lambda>i. [0]) [0..<?c]" by (rule map_cong) simp_all
  finally have b: "chunks ?c (Suc 0) (replicate ?c (0::real)) = map (\<lambda>i. [0]) [0..<?c]" by simp
  have "map2 (@) (map (\<lambda>i. [d ! i]) [0..<?c]) (map (\<lambda>i. [0::real]) [0..<?c])
      = map (\<lambda>i. [d ! i, 0]) [0..<?c]"
    by (simp add: zip_map_map zip_same_conv_map)
  then show ?thesis
    by (simp add: concatenate_def zeros_def a b)
qed

lemma foldl_update_other:
  "m \<notin> g ` set ks \<Longrightarrow> foldl (\<lambda>d k. d[g k := v k]) d ks ! m = d ! m"
  by (induction ks arbitrary: d) simp_all

lemma foldl_update_length_gen: "length (foldl (\<lambda>d k. d[g k := v k]) d ks) = length d"
  by (induction ks arbitrary: d) simp_all

lemma ravel_channel1_odd:
  "ravel [n, B, F, 2] [i, b, f, 1] = 2 * (i * (B * F) + b * F + f) + 1"
  by (simp add: algebra_simps)

lemma ravel_channel0_even:
  "ravel [n, B, F, 2] [i, b, f, 0] = 2 * (i * (B * F) + b * F + f)"
  by (simp add: algebra_simps)

lemma set_channel1_ok:
  assumes "shape a = [n, B, F, 2]" and "shape d = [B, F]" and "length (data d) = B * F"
  shows "\<exists>a'. set_channel1 a i d = Inr a' \<and> shape a' = [n, B, F, 2]
            \<and> length (data a') = length (data a)
            \<and> (\<forall>j. data a' ! (2 * j) = data a ! (2 * j))"
proof -
  let ?g = "\<lambda>k. ravel [n, B, F, 2] [i, k div F, k mod F, 1]"
  let ?dat = "foldl (\<lambda>dat k. dat[?g k := data d ! k]) (data a) [0..<B * F]"
  have res: "set_channel1 a i d = Inr (a\<lparr>data := ?dat\<rparr>)"
    using assms by (simp add: set_channel1_def Let_def)
  have "2 * j \<notin> ?g ` set [0..<B * F]" for j
    unfolding ravel_channel1_odd by (auto simp: image_iff) presburger
  then have keep: "?dat ! (2 * j) = data a ! (2 * j)" for j
    by (rule foldl_update_other)
  have len: "length ?dat = length (data a)" by (rule foldl_update_length_gen)
  have dt: "data (a\<lparr>data := ?dat\<rparr>) = ?dat" by simp
  show ?thesis
  proof (intro exI[of _ "a\<lparr>data := ?dat\<rparr>"] conjI allI)
    show "set_channel1 a i d = Inr (a\<lparr>data := ?dat\<rparr>)" by (rule res)
    show "shape (a\<lparr>data := ?dat\<rparr>) = [n, B, F, 2]" using assms(1) by simp
    show "length (data (a\<lparr>data := ?dat\<rparr>)) = length (data a)" unfolding dt by (rule len)
    show "data (a\<lparr>data := ?dat\<rparr>) ! (2 * j) = data a ! (2 * j)" for j
      unfolding dt by (rule keep)
  qed
qed

lemma channel0_shape:
  assumes "shape a = [n, B, F, 2]"
  shows "shape (channel0 a i) = [B, F] \<and> length (data (channel0 a i)) = B * F"
  using assms by (simp add: channel0_def Let_def)

lemma delta_loop_ok:
  assumes dk: "\<forall>x. shape x = [B, F] \<and> length (data x) = B * F \<longrightarrow>
                 shape (delta env x) = [B, F] \<and> length (data (delta env x)) = B * F"
    and "shape a = [n, B, F, 2]"
  shows "\<exists>a'. delta_loop env a is = Inr a' \<and> shape a' = [n, B, F, 2]
            \<and> length (data a') = length (data a)
            \<and> (\<forall>j. data a' ! (2 * j) = data a ! (2 * j))"
  using assms(2)
proof (induction "is" arbitrary: a)
  case Nil
  then show ?case by simp
next
  case (Cons i "is")
  from channel0_shape[OF Cons.prems, of i] dk
  have d: "shape (delta env (channel0 a i)) = [B, F]"
    "length (data (delta env (channel0 a i))) = B * F"
    by blast+
  from set_channel1_ok[OF Cons.prems d, of i] obtain a1 where
    a1: "set_channel1 a i (delta env (channel0 a i)) = Inr a1" "shape a1 = [n, B, F, 2]"
      "length (data a1) = length (data a)" "\<forall>j. data a1 ! (2 * j) = data a ! (2 * j)"
    by blast
  from Cons.IH[OF a1(2)] obtain a' where
    a': "delta_loop env a1 is = Inr a'" "shape a' = [n, B, F, 2]"
      "length (data a') = length (data a1)" "\<forall>j. data a' ! (2 * j) = data a1 ! (2 * j)"
    by blast
  show ?case
    by (intro exI[of _ a']) (simp add: a1 a')
qed

lemma build_features_ok:
  assumes dk: "\<forall>x. shape x = [B, F] \<and> length (data x) = B * F \<longrightarrow>
                 shape (delta env x) = [B, F] \<and> length (data (delta env x)) = B * F"
    and rs: "\<forall>r \<in> set specs. shape r = [1, B * F] \<and> length (data r) = B * F"
  shows "\<exists>features. build_features env specs B F = Inr features
           \<and> shape features = [length specs, B, F, 2]
           \<and> (\<forall>i q. i < length specs \<and> q < B * F \<longrightarrow>
                 data features ! (2 * (i * (B * F) + q)) = data (specs ! i) ! q)"
proof (cases "specs = []")
  case True
  then show ?thesis by (simp add: build_features_empty)
next
  case False
  let ?n = "length specs"
  let ?d = "concat (map data specs)"
  let ?f0 = "\<lparr>shape = [?n, B, F, 2], data = concat (map (\<lambda>i. [?d ! i, 0]) [0..<?n * (B * F)])\<rparr>"
  have as: "asarray specs = Inr \<lparr>shape = [?n, 1, B * F], data = ?d\<rparr>"
    using False rs by (intro asarray_rows) simp_all
  have len: "length ?d = ?n * (B * F)"
    using length_concat_uniform[of "map data specs" "B * F"] rs by simp
  have re: "reshape \<lparr>shape = [?n, 1, B * F], data = ?d\<rparr> [?n, B, F, 1]
          = Inr \<lparr>shape = [?n, B, F, 1], data = ?d\<rparr>"
    using len by (simp add: reshape_def)
  have co: "concatenate \<lparr>shape = [?n, B, F, 1], data = ?d\<rparr> (zeros [?n, B, F, 1]) 3 = Inr ?f0"
    by (rule concatenate_zeros[OF len])
  have sh0: "shape ?f0 = [?n, B, F, 2]" by simp
  from delta_loop_ok[OF dk sh0, of "[0..<?n]"] obtain a' where
    a': "delta_loop env ?f0 [0..<?n] = Inr a'" "shape a' = [?n, B, F, 2]"
      "\<forall>j. data a' ! (2 * j) = data ?f0 ! (2 * j)"
    by blast
  have bf: "build_features env specs B F = Inr a'"
    unfolding build_features_def
    by (simp only: as re co sum.case ndarray.simps list.sel a'(1))
  have ent: "data a' ! (2 * (i * (B * F) + q)) = data (specs ! i) ! q"
    if i: "i < ?n" and q: "q < B * F" for i q
  proof -
    have "i * (B * F) + q < i * (B * F) + B * F" using q by simp
    also have "\<dots> = Suc i * (B * F)" by simp
    also have "\<dots> \<le> ?n * (B * F)" using i by (intro mult_le_mono1) simp
    finally have j: "i * (B * F) + q < ?n * (B * F)" .
    have "data a' ! (2 * (i * (B * F) + q)) = data ?f0 ! (2 * (i * (B * F) + q))"
      using a'(3) by blast
    also have "\<dots> = ?d ! (i * (B * F) + q)"
      using pairs_nth_even[OF j, of "\<lambda>i. ?d ! i" "\<lambda>i. 0"] by simp
    also have "\<dots> = map data specs ! i ! q"
      using rs i q by (intro concat_uniform_nth) simp_all
    also have "\<dots> = data (specs ! i) ! q" using i by simp
    finally show ?thesis .
  qed
  from bf a'(2) ent show ?thesis by blast
qed

lemma filter_less_upt: "filter (\<lambda>k. k < c) [0..<n] = [0..<min c n]"
proof (induction n)
  case 0
  then show ?case by simp
next
  case (Suc n)
  show ?case
  proof (cases "n < c")
    case True
    then have "min c n = n" "min c (Suc n) = Suc n" by simp_all
    with Suc True show ?thesis by simp
  next
    case False
    then have "min c n = c" "min c (Suc n) = c" by simp_all
    with Suc False show ?thesis by simp
  qed
qed

lemma clip_frames_closed:
  assumes W: "2 \<le> W"
  shows "clip_frames env bands clip W =
     Some (map (\<lambda>k. frame_row env bands (py_slice clip (int k * (W div 2)) (int k * (W div 2) + W)))
             [0..<nat ((int (length clip) - W) div (W div 2) + 1)])
     \<and> (\<forall>k. k < nat ((int (length clip) - W) div (W div 2) + 1) \<longrightarrow>
           int (length (py_slice clip (int k * (W div 2)) (int k * (W div 2) + W))) = W)"
proof -
  let ?h = "W div 2" and ?L = "int (length clip)"
  let ?n = "nat ((?L - 1) div ?h + 1)"
  let ?c = "nat ((?L - W) div ?h + 1)"
  let ?f = "\<lambda>k. (int k * ?h, int k * ?h + W)"
  let ?P = "\<lambda>(s, e). int (length (py_slice clip s e)) = W"
  from W have hp: "0 < ?h" by simp
  have full: "(int (length (py_slice clip (int k * ?h) (int k * ?h + W))) = W) = (k < ?c)"
    if "k < ?n" for k
  proof -
    from that have "int k \<le> (?L - 1) div ?h" by auto
    then have "int k * ?h \<le> ?L - 1" by (simp only: mult_le_iff_le_div[OF hp])
    then have lt: "int k * ?h < ?L" by simp
    have s0: "0 \<le> int k * ?h" using hp by simp
    from py_slice_length[OF s0 lt, of W] W
    have "(int (length (py_slice clip (int k * ?h) (int k * ?h + W))) = W) = (int k * ?h \<le> ?L - W)"
      by auto
    also have "\<dots> = (int k \<le> (?L - W) div ?h)" by (rule mult_le_iff_le_div[OF hp])
    also have "\<dots> = (k < ?c)" by auto
    finally show ?thesis .
  qed
  have cn: "?c \<le> ?n"
  proof -
    have "(?L - W) div ?h \<le> (?L - 1) div ?h" using W hp by (intro zdiv_mono1) auto
    then show ?thesis by simp
  qed
  have "filter ?P (map ?f [0..<?n]) = map ?f (filter (\<lambda>k. ?P (?f k)) [0..<?n])"
    by (simp add: filter_map o_def)
  also have "filter (\<lambda>k. ?P (?f k)) [0..<?n] = filter (\<lambda>k. k < ?c) [0..<?n]"
    by (rule filter_cong) (simp_all add: full)
  also have "\<dots> = [0..<?c]" using cn by (simp add: filter_less_upt min_def)
  finally have fl: "filter ?P (map ?f [0..<?n]) = map ?f [0..<?c]" .
  have "clip_frames env bands clip W =
     Some (map (\<lambda>k. frame_row env bands (py_slice clip (int k * ?h) (int k * ?h + W))) [0..<?c])"
    unfolding clip_frames_def windows_closed[OF W] by (simp only: Option.bind.simps fl) (simp add: o_def)
  moreover have "int (length (py_slice clip (int k * ?h) (int k * ?h + W))) = W" if "k < ?c" for k
    using full[of k] that cn by simp
  ultimately show ?thesis by blast
qed

section \<open>Saving folds\<close>

lemma path_join_inject: "(path_join d x = path_join d y) = (x = y)"
  by (simp add: path_join_def)

lemma feature_file_inject: "(feature_file_of d a = feature_file_of d b) = (a = b)"
  by (simp add: feature_file_of_def path_join_inject)

lemma labels_file_inject: "(labels_file_of d a = labels_file_of d b) = (a = b)"
  by (simp add: labels_file_of_def path_join_inject)

lemma feature_file_neq_labels_file: "feature_file_of d a \<noteq> labels_file_of d b"
proof -
  have "a @ ''_x.npy'' \<noteq> b @ ''_y.npy''"
    using append_eq_append_conv[of "''_x.npy''" "''_y.npy''" a b] by simp
  then show ?thesis by (simp add: feature_file_of_def labels_file_of_def path_join_inject)
qed

lemma save_folds_loop_keeps:
  assumes "save_folds_loop env parent_dir data_dir ks st = Some (st', e)"
    and "\<forall>k \<in> set ks. fold_name_of k \<noteq> name"
  shows "st' (feature_file_of data_dir name) = st (feature_file_of data_dir name)
       \<and> st' (labels_file_of data_dir name) = st (labels_file_of data_dir name)"
  using assms
proof (induction ks arbitrary: st)
  case Nil
  then show ?case by simp
next
  case (Cons k ks)
  show ?case
  proof (cases "extract_features env parent_dir [fold_name_of k] ''*.wav'' 60 41")
    case None
    with Cons.prems(1) show ?thesis by (simp add: Let_def)
  next
    case (Some r)
    show ?thesis
    proof (cases r)
      case (Inl err)
      with Some Cons.prems(1) show ?thesis by (simp add: Let_def)
    next
      case (Inr fl)
      obtain features labels where fl: "fl = (features, labels)" by (cases fl)
      show ?thesis
      proof (cases "one_hot_encode labels")
        case (Inl err)
        with Some Inr fl Cons.prems(1) show ?thesis by (simp add: Let_def)
      next
        case oh: (Inr onehot)
        let ?st1 = "st(feature_file_of data_dir (fold_name_of k) \<mapsto> features,
                      labels_file_of data_dir (fold_name_of k) \<mapsto> onehot)"
        from Some Inr fl oh Cons.prems(1)
        have rec: "save_folds_loop env parent_dir data_dir ks ?st1 = Some (st', e)"
          by (simp add: Let_def)
        from Cons.prems(2) have ne: "fold_name_of k \<noteq> name" and rest: "\<forall>k \<in> set ks. fold_name_of k \<noteq> name"
          by simp_all
        from Cons.IH[OF rec rest] ne show ?thesis
          by (simp add: feature_file_inject labels_file_inject feature_file_neq_labels_file
              feature_file_neq_labels_file[symmetric])
      qed
    qed
  qed
qed

lemma save_folds_loop_saved:
  assumes "save_folds_loop env parent_dir data_dir ks st = Some (st', None)"
    and "inj_on fold_name_of (set ks)" and "k \<in> set ks"
  shows "\<exists>features labels onehot.
       extract_features env parent_dir [fold_name_of k] ''*.wav'' 60 41 = Some (Inr (features, labels))
     \<and> one_hot_encode labels = Inr onehot
     \<and> st' (feature_file_of data_dir (fold_name_of k)) = Some features
     \<and> st' (labels_file_of data_dir (fold_name_of k)) = Some onehot"
  using assms
proof (induction ks arbitrary: st)
  case Nil
  then show ?case by simp
next
  case (Cons k0 ks)
  show ?case
  proof (cases "extract_features env parent_dir [fold_name_of k0] ''*.wav'' 60 41")
    case None
    with Cons.prems(1) show ?thesis by (simp add: Let_def)
  next
    case (Some r)
    show ?thesis
    proof (cases r)
      case (Inl err)
      with Some Cons.prems(1) show ?thesis by (simp add: Let_def)
    next
      case (Inr fl)
      obtain features labels where fl: "fl = (features, labels)" by (cases fl)
      show ?thesis
      proof (cases "one_hot_encode labels")
        case (Inl err)
        with Some Inr fl Cons.prems(1) show ?thesis by (simp add: Let_def)
      next
        case oh: (Inr onehot)
        let ?st1 = "st(feature_file_of data_dir (fold_name_of k0) \<mapsto> features,
                      labels_file_of data_dir (fold_name_of k0) \<mapsto> onehot)"
        from Some Inr fl oh Cons.prems(1)
        have rec: "save_folds_loop env parent_dir data_dir ks ?st1 = Some (st', None)"
          by (simp add: Let_def)
        from Cons.prems(2) have inj: "inj_on fold_name_of (set ks)" by (simp add: inj_on_def)
        show ?thesis
        proof (cases "k \<in> set ks")
          case True
          from Cons.IH[OF rec inj True] show ?thesis .
        next
          case False
          with Cons.prems(3) have k: "k = k0" by simp
          from Cons.prems(2) False k have "\<forall>j \<in> set ks. fold_name_of j \<noteq> fold_name_of k0"
            by (auto simp: inj_on_def)
          from save_folds_loop_keeps[OF rec this]
          have "st' (feature_file_of data_dir (fold_name_of k0)) = Some features"
            "st' (labels_file_of data_dir (fold_name_of k0)) = Some onehot"
            by (simp_all add: feature_file_neq_labels_file)
          with Some Inr fl oh k show ?thesis by simp
        qed
      qed
    qed
  qed
qed

lemma fold_names_inj: "inj_on fold_name_of (set [1..10])"
proof -
  have "distinct (map fold_name_of [1..10])" by code_simp
  then show ?thesis by (simp add: distinct_map)
qed

lemma those_append_Some:
  "those xs = Some a \<Longrightarrow> those ys = Some b \<Longrightarrow> those (xs @ ys) = Some (a @ b)"
  by (induction xs arbitrary: a) (auto split: option.splits)

lemma those_replicate: "those (replicate n (Some v)) = Some (replicate n v)"
  by (induction n) simp_all

lemma int_labels_replicated:
  assumes "\<forall>fn \<in> set fns. cnt fn = 0 \<or> int_of_label env (lab fn) = Some (val fn)"
  shows "int_labels env (concat (map (\<lambda>fn. replicate (cnt fn) (lab fn)) fns))
       = Inr (concat (map (\<lambda>fn. replicate (cnt fn) (val fn)) fns))"
proof -
  have "those (map (int_of_label env) (concat (map (\<lambda>fn. replicate (cnt fn) (lab fn)) fns)))
      = Some (concat (map (\<lambda>fn. replicate (cnt fn) (val fn)) fns))"
    using assms
  proof (induction fns)
    case Nil
    then show ?case by simp
  next
    case (Cons fn fns)
    have "those (map (int_of_label env) (replicate (cnt fn) (lab fn))) = Some (replicate (cnt fn) (val fn))"
    proof (cases "cnt fn = 0")
      case True
      then show ?thesis by simp
    next
      case False
      with Cons.prems have "int_of_label env (lab fn) = Some (val fn)" by simp
      then show ?thesis by (simp add: those_replicate)
    qed
    moreover have "those (map (int_of_label env) (concat (map (\<lambda>fn. replicate (cnt fn) (lab fn)) fns)))
      = Some (concat (map (\<lambda>fn. replicate (cnt fn) (val fn)) fns))"
      using Cons by simp
    ultimately show ?case by (simp add: those_append_Some)
  qed
  then show ?thesis by (simp add: int_labels_def)
qed

lemma process_files_ok:
  assumes W: "2 \<le> W"
    and mel: "\<forall>signal. int (length signal) = W \<longrightarrow>
        shape (logamplitude env (melspectrogram env signal bands)) = [bands, frames]
      \<and> length (data (logamplitude env (melspectrogram env signal bands))) = bands * frames"
    and each: "\<forall>fn \<in> set fns. \<exists>clip. load env fn = Inr clip \<and> label_of_filename fn = Inr (lab fn)
        \<and> cnt fn = nat ((int (length clip) - W) div (W div 2) + 1)"
  shows "\<exists>rows. process_files env bands W fns (specs, labels)
         = Some (Inr (specs @ rows, labels @ concat (map (\<lambda>fn. replicate (cnt fn) (lab fn)) fns)))
       \<and> (\<forall>r \<in> set rows. shape r = [1, bands * frames] \<and> length (data r) = bands * frames)"
  using each
proof (induction fns arbitrary: specs labels)
  case Nil
  show ?case by (intro exI[of _ "[]"]) simp
next
  case (Cons fn fns)
  from Cons.prems obtain clip where clip: "load env fn = Inr clip" "label_of_filename fn = Inr (lab fn)"
    "cnt fn = nat ((int (length clip) - W) div (W div 2) + 1)"
    by auto
  let ?win = "\<lambda>k. py_slice clip (int k * (W div 2)) (int k * (W div 2) + W)"
  let ?rows = "map (\<lambda>k. frame_row env bands (?win k)) [0..<cnt fn]"
  note cfc = clip_frames_closed[OF W, of env bands clip, folded clip(3)]
  have cf: "clip_frames env bands clip W = Some ?rows" by (rule cfc[THEN conjunct1])
  have full: "int (length (?win k)) = W" if "k < cnt fn" for k
    using cfc[THEN conjunct2] that by blast
  have ok: "shape r = [1, bands * frames] \<and> length (data r) = bands * frames" if "r \<in> set ?rows" for r
  proof -
    from that obtain k where k: "k < cnt fn" and r: "r = frame_row env bands (?win k)" by auto
    from mel full[OF k] have "shape (logamplitude env (melspectrogram env (?win k) bands)) = [bands, frames]"
      "length (data (logamplitude env (melspectrogram env (?win k) bands))) = bands * frames"
      by blast+
    from frame_row_eq[OF this] r show ?thesis by simp
  qed
  from Cons.prems have rest: "\<forall>fn \<in> set fns. \<exists>clip. load env fn = Inr clip \<and> label_of_filename fn = Inr (lab fn)
        \<and> cnt fn = nat ((int (length clip) - W) div (W div 2) + 1)"
    by simp
  from Cons.IH[OF rest, of "specs @ ?rows" "labels @ replicate (cnt fn) (lab fn)"]
  obtain rows where rows: "process_files env bands W fns (specs @ ?rows, labels @ replicate (cnt fn) (lab fn))
         = Some (Inr ((specs @ ?rows) @ rows,
              (labels @ replicate (cnt fn) (lab fn)) @ concat (map (\<lambda>fn. replicate (cnt fn) (lab fn)) fns)))"
    and rok: "\<forall>r \<in> set rows. shape r = [1, bands * frames] \<and> length (data r) = bands * frames"
    by blast
  have len: "length ?rows = cnt fn" by simp
  have step: "process_files env bands W (fn # fns) (specs, labels)
      = process_files env bands W fns (specs @ ?rows, labels @ replicate (cnt fn) (lab fn))"
    by (simp only: process_files.simps clip(1,2) sum.case cf option.case len)
  have "process_files env bands W (fn # fns) (specs, labels)
         = Some (Inr (specs @ (?rows @ rows),
              labels @ concat (map (\<lambda>fn. replicate (cnt fn) (lab fn)) (fn # fns))))"
    unfolding step rows by (simp only: append_assoc list.map concat.simps)
  moreover have "\<forall>r \<in> set (?rows @ rows). shape r = [1, bands * frames] \<and> length (data r) = bands * frames"
  proof
    fix r assume "r \<in> set (?rows @ rows)"
    then have "r \<in> set ?rows \<or> r \<in> set rows" by (simp only: set_append Un_iff)
    with ok rok show "shape r = [1, bands * frames] \<and> length (data r) = bands * frames" by blast
  qed
  ultimately show ?case by blast
qed

lemma extract_features_ok:
  assumes W: "W = 512 * (int frames - 1)" and fr: "2 \<le> frames"
    and mel: "\<forall>signal. int (length signal) = W \<longrightarrow>
        shape (logamplitude env (melspectrogram env signal bands)) = [bands, frames]
      \<and> length (data (logamplitude env (melspectrogram env signal bands))) = bands * frames"
    and dk: "\<forall>x. shape x = [bands, frames] \<and> length (data x) = bands * frames \<longrightarrow>
        shape (delta env x) = [bands, frames] \<and> length (data (delta env x)) = bands * frames"
    and each: "\<forall>fn \<in> set (glob env parent_dir sub_dir file_ext).
        \<exists>clip. load env fn = Inr clip \<and> label_of_filename fn = Inr (lab fn)
        \<and> cnt fn = nat ((int (length clip) - W) div (W div 2) + 1)"
    and vals: "\<forall>fn \<in> set (glob env parent_dir sub_dir file_ext).
        cnt fn = 0 \<or> int_of_label env (lab fn) = Some (val fn)"
  shows "\<exists>features. extract_features env parent_dir [sub_dir] file_ext bands frames
       = Some (Inr (features,
            concat (map (\<lambda>fn. replicate (cnt fn) (val fn)) (glob env parent_dir sub_dir file_ext))))"
proof -
  let ?fns = "glob env parent_dir sub_dir file_ext"
  from W fr have W2: "2 \<le> W" by simp
  from process_files_ok[OF W2 mel each, of "[]" "[]"] obtain rows where
    pf: "process_files env bands W ?fns ([], [])
         = Some (Inr (rows, concat (map (\<lambda>fn. replicate (cnt fn) (lab fn)) ?fns)))"
    and rok: "\<forall>r \<in> set rows. shape r = [1, bands * frames] \<and> length (data r) = bands * frames"
    by auto
  from build_features_ok[OF dk rok] obtain features where
    bf: "build_features env rows bands frames = Inr features" by blast
  note il = int_labels_replicated[OF vals]
  have "extract_features env parent_dir [sub_dir] file_ext bands frames
       = Some (Inr (features, concat (map (\<lambda>fn. replicate (cnt fn) (val fn)) ?fns)))"
    unfolding extract_features_def Let_def W[symmetric] process_dirs.simps
    by (simp only: pf option.case sum.case prod.case bf il)
  then show ?thesis by blast
qed

lemma save_folds_loop_total:
  assumes "\<forall>k \<in> set ks. \<exists>features labels onehot.
       extract_features env parent_dir [fold_name_of k] ''*.wav'' 60 41 = Some (Inr (features, labels))
     \<and> one_hot_encode labels = Inr onehot"
  shows "\<exists>st'. save_folds_loop env parent_dir data_dir ks st = Some (st', None)"
  using assms
proof (induction ks arbitrary: st)
  case Nil
  then show ?case by simp
next
  case (Cons k ks)
  from Cons.prems obtain features labels onehot where
    k: "extract_features env parent_dir [fold_name_of k] ''*.wav'' 60 41 = Some (Inr (features, labels))"
      "one_hot_encode labels = Inr onehot"
    by auto
  from Cons.prems have "\<forall>k \<in> set ks. \<exists>features labels onehot.
       extract_features env parent_dir [fold_name_of k] ''*.wav'' 60 41 = Some (Inr (features, labels))
     \<and> one_hot_encode labels = Inr onehot"
    by simp
  from Cons.IH[OF this] k show ?case by (simp add: Let_def)
qed

lemma one_hot_encode_shape:
  assumes "one_hot_encode labels = Inr onehot"
  shows "shape onehot = [length labels, card (set labels)]"
proof (cases "list_all (index_in_range (card (set labels))) labels")
  case True
  from one_hot_encode_ok[OF True] assms show ?thesis by auto
next
  case False
  from one_hot_encode_error[OF False] assms show ?thesis by simp
qed

section \<open>The layout of the frame tensor\<close>

text \<open>
  Claim C2. For a clip that decodes, \<open>frames \<ge> 2\<close>, and kernels that return
  \<open>bands \<times> frames\<close> arrays on every full window, \<^verbatim>\<open>extract_feature_array\<close> returns a
  tensor of shape \<open>[n, bands, frames, 2]\<close>, one example per full window, as the claim
  says. Its channel 0 at position \<open>(b, f)\<close> of example \<open>i\<close> is the log-mel value of window
  \<open>i\<close> at mel band \<open>(b * frames + f) mod bands\<close> and time frame
  \<open>(b * frames + f) div bands\<close>: the code flattens the transposed spectrogram and
  reshapes it as if it had not been transposed. This is the value at band \<open>b\<close> and frame
  \<open>f\<close>, which the claim and the notebook's own description of the tensor ask for, only
  at the positions where the two index pairs agree.
\<close>

theorem frame_tensor_channel0_layout:
  assumes ld: "load env filename = Inr sound_clip"
    and W: "W = 512 * (int frames - 1)" and fr: "2 \<le> frames"
    and mel: "\<forall>signal. int (length signal) = W \<longrightarrow>
        shape (logamplitude env (melspectrogram env signal bands)) = [bands, frames]
      \<and> length (data (logamplitude env (melspectrogram env signal bands))) = bands * frames"
    and dk: "\<forall>x. shape x = [bands, frames] \<and> length (data x) = bands * frames \<longrightarrow>
        shape (delta env x) = [bands, frames] \<and> length (data (delta env x)) = bands * frames"
  shows "\<exists>features. extract_feature_array env filename bands frames = Some (Inr features)
     \<and> shape features = [nat ((int (length sound_clip) - W) div (W div 2) + 1), bands, frames, 2]
     \<and> (\<forall>i b f. i < nat ((int (length sound_clip) - W) div (W div 2) + 1) \<and> b < bands \<and> f < frames \<longrightarrow>
           item features [i, b, f, 0]
           = item (logamplitude env (melspectrogram env
                     (py_slice sound_clip (int i * (W div 2)) (int i * (W div 2) + W)) bands))
               [(b * frames + f) mod bands, (b * frames + f) div bands])"
proof -
  let ?c = "nat ((int (length sound_clip) - W) div (W div 2) + 1)"
  let ?win = "\<lambda>k. py_slice sound_clip (int k * (W div 2)) (int k * (W div 2) + W)"
  let ?logspec = "\<lambda>k. logamplitude env (melspectrogram env (?win k) bands)"
  let ?specs = "map (\<lambda>k. frame_row env bands (?win k)) [0..<?c]"
  from W fr have W2: "2 \<le> W" by simp
  from clip_frames_closed[OF W2, of env bands sound_clip]
  have cf: "clip_frames env bands sound_clip W = Some ?specs"
    and full: "\<And>k. k < ?c \<Longrightarrow> int (length (?win k)) = W"
    by blast+
  have row: "frame_row env bands (?win k) =
     \<lparr>shape = [1, bands * frames],
      data = map (\<lambda>q. data (?logspec k) ! ((q mod bands) * frames + q div bands)) [0..<bands * frames]\<rparr>"
    if "k < ?c" for k
    using mel full[OF that] by (intro frame_row_eq) blast+
  have rs: "\<forall>r \<in> set ?specs. shape r = [1, bands * frames] \<and> length (data r) = bands * frames"
    using row by auto
  from build_features_ok[OF dk rs] obtain features where
    bf: "build_features env ?specs bands frames = Inr features"
    and sh: "shape features = [length ?specs, bands, frames, 2]"
    and ent: "\<forall>i q. i < length ?specs \<and> q < bands * frames \<longrightarrow>
                 data features ! (2 * (i * (bands * frames) + q)) = data (?specs ! i) ! q"
    by blast
  have res: "extract_feature_array env filename bands frames = Some (Inr features)"
    unfolding extract_feature_array_def Let_def ld W[symmetric]
    by (simp only: sum.case cf Option.bind.simps bf)
  have sh': "shape features = [?c, bands, frames, 2]" using sh by simp
  have ent': "data features ! (2 * (i * (bands * frames) + q)) = data (?specs ! i) ! q"
    if "i < ?c" "q < bands * frames" for i q
  proof -
    from that have "i < length ?specs \<and> q < bands * frames" by simp
    with ent show ?thesis by blast
  qed
  have lay: "item features [i, b, f, 0] = item (?logspec i) [(b * frames + f) mod bands, (b * frames + f) div bands]"
    if i: "i < ?c" and b: "b < bands" and f: "f < frames" for i b f
  proof -
    let ?q = "b * frames + f"
    have "?q < b * frames + frames" using f by simp
    also have "\<dots> = Suc b * frames" by simp
    also have "\<dots> \<le> bands * frames" using b by (intro mult_le_mono1) simp
    finally have q: "?q < bands * frames" .
    have "item features [i, b, f, 0] = data features ! (2 * (i * (bands * frames) + ?q))"
      unfolding item_def sh' ravel_channel0_even by (simp add: algebra_simps)
    also have "\<dots> = data (?specs ! i) ! ?q" by (rule ent'[OF i q])
    also have "?specs ! i = frame_row env bands (?win i)" using i by simp
    also have "data (frame_row env bands (?win i)) ! ?q
        = data (?logspec i) ! ((?q mod bands) * frames + ?q div bands)"
      unfolding row[OF i] using q by simp
    also have "\<dots> = item (?logspec i) [?q mod bands, ?q div bands]"
      using mel full[OF i] by (simp add: item_def)
    finally show ?thesis .
  qed
  from res sh' lay show ?thesis by blast
qed

text \<open>
  The theorem at \<open>bands = 2\<close>, \<open>frames = 2\<close> and a clip of 512 samples whose log-mel
  spectrogram is \<open>[[0, 1], [2, 3]]\<close>: channel 0 at \<open>(b, f) = (0, 1)\<close> holds 2, the value
  at band 1 and frame 0, and not 1, the value at band 0 and frame 1.
\<close>

theorem frame_tensor_channel0_layout_witness:
  "extract_feature_array (example_env (\<lambda>d. []) (\<lambda>fn. Inr (replicate 512 0)) 2) ''clip.wav'' 2 2
     = Some (Inr \<lparr>shape = [1, 2, 2, 2], data = [0, 0, 2, 2, 1, 1, 3, 3]\<rparr>)
   \<and> item \<lparr>shape = [1, 2, 2, 2], data = [0, 0, 2, 2, 1, 1, 3, 3::real]\<rparr> [0, 0, 1, 0] = 2
   \<and> item (logamplitude (example_env (\<lambda>d. []) (\<lambda>fn. Inr (replicate 512 0)) 2)
            (melspectrogram (example_env (\<lambda>d. []) (\<lambda>fn. Inr (replicate 512 0)) 2) (replicate 512 0) 2)) [1, 0] = 2
   \<and> item (logamplitude (example_env (\<lambda>d. []) (\<lambda>fn. Inr (replicate 512 0)) 2)
            (melspectrogram (example_env (\<lambda>d. []) (\<lambda>fn. Inr (replicate 512 0)) 2) (replicate 512 0) 2)) [0, 1] = 1"
proof -
  let ?env = "example_env (\<lambda>d. []) (\<lambda>fn. Inr (replicate 512 0)) 2"
  let ?F = "\<lparr>shape = [1, 2, 2, 2], data = [0, 0, 2, 2, 1, 1, 3, 3::real]\<rparr>"
  let ?logspec = "logamplitude ?env (melspectrogram ?env (replicate 512 0) 2)"
  have ld: "load ?env ''clip.wav'' = Inr (replicate 512 0)" by (simp add: example_env_def)
  have W: "(512::int) = 512 * (int 2 - 1)" by simp
  have fr: "2 \<le> (2::nat)" by simp
  have mel: "\<forall>signal. int (length signal) = 512 \<longrightarrow>
        shape (logamplitude ?env (melspectrogram ?env signal 2)) = [2, 2]
      \<and> length (data (logamplitude ?env (melspectrogram ?env signal 2))) = 2 * 2"
    by (simp add: example_env_def)
  have dk: "\<forall>x. shape x = [2, 2] \<and> length (data x) = 2 * 2 \<longrightarrow>
        shape (delta ?env x) = [2, 2] \<and> length (data (delta ?env x)) = 2 * 2"
    by (simp add: example_env_def)
  from frame_tensor_channel0_layout[OF ld W fr mel dk] obtain features where
    res: "extract_feature_array ?env ''clip.wav'' 2 2 = Some (Inr features)"
    and lay: "\<forall>i b f. i < nat ((int (length (replicate 512 (0::real))) - 512) div (512 div 2) + 1) \<and> b < 2 \<and> f < 2 \<longrightarrow>
           item features [i, b, f, 0]
           = item (logamplitude ?env (melspectrogram ?env
                     (py_slice (replicate 512 0) (int i * (512 div 2)) (int i * (512 div 2) + 512)) 2))
               [(b * 2 + f) mod 2, (b * 2 + f) div 2]"
    by blast
  have ev: "extract_feature_array ?env ''clip.wav'' 2 2 = Some (Inr ?F)" by code_simp
  with res have F: "features = ?F" by simp
  have "(0::nat) < nat ((int (length (replicate 512 (0::real))) - 512) div (512 div 2) + 1) \<and> (0::nat) < 2 \<and> (1::nat) < 2"
    by simp
  with lay have "item features [0, 0, 1, 0]
      = item (logamplitude ?env (melspectrogram ?env
                     (py_slice (replicate 512 0) (int 0 * (512 div 2)) (int 0 * (512 div 2) + 512)) 2))
               [(0 * 2 + 1) mod 2, (0 * 2 + 1) div 2]"
    by blast
  then have a: "item ?F [0, 0, 1, 0] = item ?logspec [1, 0]"
    unfolding F by (simp add: example_env_def)
  have b: "item ?logspec [1, 0] = 2" "item ?logspec [0, 1] = 1"
    by (simp_all add: example_env_def item_def)
  from ev a b show ?thesis by simp
qed

section \<open>The encoding of saved folds\<close>

lemma example_corpus_fold:
  assumes "files = glob example_corpus ''audio'' sub_dir ''*.wav''"
  shows "\<exists>features. extract_features example_corpus ''audio'' [sub_dir] ''*.wav'' 60 41
      = Some (Inr (features,
           concat (map (\<lambda>fn. replicate 1 (if fn = ''audio/fold1/102-1-0.wav'' then 1 else 0)) files)))"
proof -
  let ?lab = "\<lambda>fn. if fn = ''audio/fold1/102-1-0.wav'' then ''1'' else ''0''"
  let ?val = "\<lambda>fn. if fn = ''audio/fold1/102-1-0.wav'' then 1 else (0::int)"
  let ?cnt = "\<lambda>fn::string. 1::nat"
  have W: "(20480::int) = 512 * (int 41 - 1)" by simp
  have fr: "2 \<le> (41::nat)" by simp
  have mel: "\<forall>signal. int (length signal) = 20480 \<longrightarrow>
        shape (logamplitude example_corpus (melspectrogram example_corpus signal 60)) = [60, 41]
      \<and> length (data (logamplitude example_corpus (melspectrogram example_corpus signal 60))) = 60 * 41"
    by (simp add: example_corpus_def example_env_def)
  have dk: "\<forall>x. shape x = [60, 41] \<and> length (data x) = 60 * 41 \<longrightarrow>
        shape (delta example_corpus x) = [60, 41] \<and> length (data (delta example_corpus x)) = 60 * 41"
    by (simp add: example_corpus_def example_env_def)
  have labs: "label_of_filename ''audio/fold1/101-0-0.wav'' = Inr ''0''"
    "label_of_filename ''audio/fold1/102-1-0.wav'' = Inr ''1''"
    "label_of_filename ''audio/fold2/201-0-0.wav'' = Inr ''0''"
    by code_simp+
  have fs: "set (glob example_corpus ''audio'' sub_dir ''*.wav'')
      \<subseteq> {''audio/fold1/101-0-0.wav'', ''audio/fold1/102-1-0.wav'', ''audio/fold2/201-0-0.wav''}"
    by (auto simp: example_corpus_def example_env_def)
  have each: "\<forall>fn \<in> set (glob example_corpus ''audio'' sub_dir ''*.wav'').
        \<exists>clip. load example_corpus fn = Inr clip \<and> label_of_filename fn = Inr (?lab fn)
        \<and> ?cnt fn = nat ((int (length clip) - 20480) div (20480 div 2) + 1)"
  proof
    fix fn assume "fn \<in> set (glob example_corpus ''audio'' sub_dir ''*.wav'')"
    with fs have "fn = ''audio/fold1/101-0-0.wav'' \<or> fn = ''audio/fold1/102-1-0.wav''
        \<or> fn = ''audio/fold2/201-0-0.wav''" by blast
    then have "label_of_filename fn = Inr (?lab fn)" using labs by auto
    moreover have "load example_corpus fn = Inr (replicate 20480 0)"
      by (simp add: example_corpus_def example_env_def)
    moreover have "?cnt fn = nat ((int (length (replicate 20480 (0::real))) - 20480) div (20480 div 2) + 1)"
      by simp
    ultimately show "\<exists>clip. load example_corpus fn = Inr clip \<and> label_of_filename fn = Inr (?lab fn)
        \<and> ?cnt fn = nat ((int (length clip) - 20480) div (20480 div 2) + 1)"
      by blast
  qed
  have vals: "\<forall>fn \<in> set (glob example_corpus ''audio'' sub_dir ''*.wav'').
        ?cnt fn = 0 \<or> int_of_label example_corpus (?lab fn) = Some (?val fn)"
    by (simp add: example_corpus_def example_env_def)
  from extract_features_ok[OF W fr mel dk each vals] show ?thesis
    unfolding assms by blast
qed

lemma example_corpus_fold1:
  "\<exists>features. extract_features example_corpus ''audio'' [fold_name_of 1] ''*.wav'' 60 41
      = Some (Inr (features, [0, 1]))"
proof -
  have n: "fold_name_of 1 = ''fold1''" by code_simp
  have g: "[''audio/fold1/101-0-0.wav'', ''audio/fold1/102-1-0.wav'']
      = glob example_corpus ''audio'' ''fold1'' ''*.wav''"
    by (simp add: example_corpus_def example_env_def)
  from example_corpus_fold[OF g] show ?thesis unfolding n by simp
qed

lemma example_corpus_fold2:
  "\<exists>features. extract_features example_corpus ''audio'' [fold_name_of 2] ''*.wav'' 60 41
      = Some (Inr (features, [0]))"
proof -
  have n: "fold_name_of 2 = ''fold2''" by code_simp
  have g: "[''audio/fold2/201-0-0.wav''] = glob example_corpus ''audio'' ''fold2'' ''*.wav''"
    by (simp add: example_corpus_def example_env_def)
  from example_corpus_fold[OF g] show ?thesis unfolding n by simp
qed

lemma example_corpus_completes:
  "\<exists>st'. save_folds example_corpus ''audio'' ''data'' Map.empty = Some (st', None)"
proof -
  have "\<exists>features labels onehot.
       extract_features example_corpus ''audio'' [fold_name_of k] ''*.wav'' 60 41 = Some (Inr (features, labels))
     \<and> one_hot_encode labels = Inr onehot" for k
  proof -
    let ?files = "glob example_corpus ''audio'' (fold_name_of k) ''*.wav''"
    let ?labels = "concat (map (\<lambda>fn. replicate 1 (if fn = ''audio/fold1/102-1-0.wav'' then 1 else 0)) ?files)"
    from example_corpus_fold[OF refl, of "fold_name_of k"] obtain features where
      f: "extract_features example_corpus ''audio'' [fold_name_of k] ''*.wav'' 60 41
          = Some (Inr (features, ?labels))"
      by blast
    have "?labels = [0, 1] \<or> ?labels = [0] \<or> ?labels = []"
      by (simp add: example_corpus_def example_env_def)
    moreover have "one_hot_encode [0, 1] = Inr \<lparr>shape = [2, 2], data = [1, 0, 0, 1]\<rparr>"
      "one_hot_encode [0] = Inr \<lparr>shape = [1, 1], data = [1]\<rparr>"
      "one_hot_encode [] = Inr \<lparr>shape = [0, 0], data = []\<rparr>"
      by code_simp+
    ultimately have "\<exists>onehot. one_hot_encode ?labels = Inr onehot" by metis
    with f show ?thesis by blast
  qed
  then have "\<forall>k \<in> set [1..10]. \<exists>features labels onehot.
       extract_features example_corpus ''audio'' [fold_name_of k] ''*.wav'' 60 41 = Some (Inr (features, labels))
     \<and> one_hot_encode labels = Inr onehot"
    by blast
  from save_folds_loop_total[OF this] show ?thesis by (simp only: save_folds_def)
qed

text \<open>
  Claim C6, amended. \<^verbatim>\<open>save_folds\<close> computes the one-hot encoding once per fold,
  inside the loop, over the labels of that fold alone. Whenever it completes, every fold
  \<open>k\<close> of \<open>1 .. 10\<close> has saved the features that \<^verbatim>\<open>extract_features\<close> returns for the
  directory of fold \<open>k\<close> and the matrix \<^verbatim>\<open>one_hot_encode\<close> returns for the labels of
  fold \<open>k\<close>; the width of this matrix is the number of distinct labels of fold \<open>k\<close>. Two
  saved folds have label matrices of one width exactly when they hold equally many
  distinct labels.
\<close>

theorem save_folds_encodes_each_fold_alone:
  assumes "save_folds env parent_dir data_dir st = Some (st', None)"
    and "1 \<le> k" and "k \<le> 10"
  shows "\<exists>features labels onehot.
       extract_features env parent_dir [fold_name_of k] ''*.wav'' 60 41 = Some (Inr (features, labels))
     \<and> one_hot_encode labels = Inr onehot
     \<and> st' (feature_file_of data_dir (fold_name_of k)) = Some features
     \<and> st' (labels_file_of data_dir (fold_name_of k)) = Some onehot
     \<and> shape onehot = [length labels, card (set labels)]"
proof -
  from assms(2,3) have k: "k \<in> set [1..10]" by simp
  from assms(1) have "save_folds_loop env parent_dir data_dir [1..10] st = Some (st', None)"
    by (simp only: save_folds_def)
  from save_folds_loop_saved[OF this fold_names_inj k] one_hot_encode_shape
  show ?thesis by blast
qed

text \<open>
  The theorem at fold 1 of the example corpus: its labels are 0 and 1, and the saved
  matrix has two columns.
\<close>

theorem save_folds_encodes_each_fold_alone_witness:
  "map_option (\<lambda>(st', e). (e, st' ''data/fold1_y.npy''))
     (save_folds example_corpus ''audio'' ''data'' Map.empty)
   = Some (None, Some \<lparr>shape = [2, 2], data = [1, 0, 0, 1]\<rparr>)
   \<and> card (set [0, 1::int]) = 2"
proof -
  from example_corpus_completes obtain st' where
    st': "save_folds example_corpus ''audio'' ''data'' Map.empty = Some (st', None)" by blast
  have names: "labels_file_of ''data'' (fold_name_of 1) = ''data/fold1_y.npy''" by code_simp
  have k: "(1::int) \<le> 1" "(1::int) \<le> 10" by simp_all
  from save_folds_encodes_each_fold_alone[OF st' k] example_corpus_fold1
  obtain o1 where o1: "one_hot_encode [0, 1] = Inr o1" "st' ''data/fold1_y.npy'' = Some o1"
    unfolding names by auto
  have "one_hot_encode [0, 1] = Inr \<lparr>shape = [2, 2], data = [1, 0, 0, 1]\<rparr>" by code_simp
  with o1 have "st' ''data/fold1_y.npy'' = Some \<lparr>shape = [2, 2], data = [1, 0, 0, 1]\<rparr>" by simp
  moreover have "card (set [0, 1::int]) = 2" by code_simp
  ultimately show ?thesis using st' by simp
qed

text \<open>
  Claim C6 as stated gives all saved folds one width. On the example corpus
  \<^verbatim>\<open>save_folds\<close> completes; fold 1 (classes 0 and 1) is saved with labels of width 2,
  fold 2 (class 0 only) with labels of width 1.
\<close>

theorem save_folds_widths_counterexample:
  "map_option (\<lambda>(st', e). (e, map_option shape (st' ''data/fold1_y.npy''),
                              map_option shape (st' ''data/fold2_y.npy'')))
     (save_folds example_corpus ''audio'' ''data'' Map.empty)
   = Some (None, Some [2, 2], Some [1, 1])"
proof -
  from example_corpus_completes obtain st' where
    st': "save_folds example_corpus ''audio'' ''data'' Map.empty = Some (st', None)" by blast
  then have loop: "save_folds_loop example_corpus ''audio'' ''data'' [1..10] Map.empty = Some (st', None)"
    by (simp only: save_folds_def)
  have names: "labels_file_of ''data'' (fold_name_of 1) = ''data/fold1_y.npy''"
    "labels_file_of ''data'' (fold_name_of 2) = ''data/fold2_y.npy''"
    by code_simp+
  have k: "(1::int) \<in> set [1..10]" "(2::int) \<in> set [1..10]" by simp_all
  from save_folds_loop_saved[OF loop fold_names_inj k(1)] example_corpus_fold1
  obtain o1 where o1: "one_hot_encode [0, 1] = Inr o1" "st' ''data/fold1_y.npy'' = Some o1"
    unfolding names by auto
  from save_folds_loop_saved[OF loop fold_names_inj k(2)] example_corpus_fold2
  obtain o2 where o2: "one_hot_encode [0] = Inr o2" "st' ''data/fold2_y.npy'' = Some o2"
    unfolding names by auto
  have "one_hot_encode [0, 1] = Inr \<lparr>shape = [2, 2], data = [1, 0, 0, 1]\<rparr>"
    "one_hot_encode [0] = Inr \<lparr>shape = [1, 1], data = [1]\<rparr>"
    by code_simp+
  with o1 o2 have "map_option shape (st' ''data/fold1_y.npy'') = Some [2, 2]"
    "map_option shape (st' ''data/fold2_y.npy'') = Some [1, 1]"
    by auto
  with st' show ?thesis by simp
qed

end
